theory Spec2Isabelle
  imports Main "HOL-Library.Sublist"
begin

section \<open>Strings and URLs of the toolkit\<close>

text \<open>
  A \<open>QString\<close> is a \<^typ>\<open>string\<close>. \<open>s.startsWith(t)\<close> for two strings is
  \<^term>\<open>prefix t s\<close>; the one-character tests used by the code are written out below.
\<close>

definition endsWith :: "string \<Rightarrow> char \<Rightarrow> bool" where
  "endsWith s c = (s \<noteq> [] \<and> last s = c)"

definition startsWith :: "string \<Rightarrow> char \<Rightarrow> bool" where
  "startsWith s c = (s \<noteq> [] \<and> hd s = c)"

text \<open>\<open>QString::chop(n)\<close> removes \<open>n\<close> characters from the end of the string.\<close>

definition chop :: "nat \<Rightarrow> string \<Rightarrow> string" where
  "chop n s = take (length s - n) s"

text \<open>
  The parts of a \<open>QUrl\<close> that \<open>Account::concatUrlPath\<close> reads or writes. \<open>setPath\<close> and
  \<open>setQueryItems\<close> replace one component and leave the others alone.
\<close>

record QUrl =
  url_scheme :: string
  url_host :: string
  url_port :: int
  url_path :: string
  url_queryItems :: "(string \<times> string) list"

definition setPath :: "string \<Rightarrow> QUrl \<Rightarrow> QUrl" where
  "setPath p u = u\<lparr>url_path := p\<rparr>"

definition setQueryItems :: "(string \<times> string) list \<Rightarrow> QUrl \<Rightarrow> QUrl" where
  "setQueryItems q u = u\<lparr>url_queryItems := q\<rparr>"

subsection \<open>\<open>Account::concatUrlPath\<close> (account.cpp)\<close>

definition concatUrlPath :: "QUrl \<Rightarrow> string \<Rightarrow> (string \<times> string) list \<Rightarrow> QUrl" where
  "concatUrlPath url concatPath queryItems =
     (let path = url_path url;
          path = (if concatPath \<noteq> [] then
                    (if endsWith path CHR ''/'' \<and> startsWith concatPath CHR ''/''
                       then chop 1 path
                     else if \<not> endsWith path CHR ''/'' \<and> \<not> startsWith concatPath CHR ''/''
                       then path @ ''/''
                     else path) @ concatPath
                  else path);
          tmpUrl = setPath path url
      in if length queryItems > 0 then setQueryItems queryItems tmpUrl else tmpUrl)"

text \<open>
  \<open>QString::remove(const QString &)\<close> removes every occurrence of the given string: it
  searches the next occurrence from the place of the last removal on, so the characters
  before that place are not looked at again. Removing the empty string does nothing.
\<close>

function removeStr :: "string \<Rightarrow> string \<Rightarrow> string" where
  "removeStr str s =
     (if str = [] \<or> s = [] then s
      else if prefix str s then removeStr str (drop (length str) s)
      else hd s # removeStr str (tl s))"
  by pat_completeness auto

termination removeStr
  by (relation "measure (\<lambda>(str, s). length s)") auto

declare removeStr.simps [simp del]

text \<open>
  \<open>QString::split(sep, QString::SkipEmptyParts)\<close>: the maximal runs of characters other
  than the separator, in order. \<open>cur\<close> is the run being read.
\<close>

fun splitFrom :: "char \<Rightarrow> string \<Rightarrow> string \<Rightarrow> string list" where
  "splitFrom sep cur [] = (if cur = [] then [] else [cur])"
| "splitFrom sep cur (c # cs) =
     (if c = sep then (if cur = [] then splitFrom sep [] cs else cur # splitFrom sep [] cs)
      else splitFrom sep (cur @ [c]) cs)"

definition splitSkipEmptyParts :: "char \<Rightarrow> string \<Rightarrow> string list" where
  "splitSkipEmptyParts sep s = splitFrom sep [] s"

text \<open>
  Failures. The containers of the toolkit require a non-empty list for \<open>first\<close>,
  \<open>last\<close> and \<open>removeFirst\<close> and an index in range for \<open>at\<close> and \<open>[]\<close>; the code
  asserts some ranges itself with \<open>Q_ASSERT\<close>. A run that breaks one of these, or that
  follows a null pointer, ends with the error. \<open>OutOfFuel\<close> belongs to the model only:
  the recursion of \<open>setData\<close> is cut after a given number of nested calls.
\<close>

datatype error = EmptyList | IndexOutOfRange | NullPointer | OutOfFuel

definition bindE :: "error + 'a \<Rightarrow> ('a \<Rightarrow> error + 'b) \<Rightarrow> error + 'b" where
  "bindE x f = (case x of Inl e \<Rightarrow> Inl e | Inr a \<Rightarrow> f a)"

section \<open>The folder status model (folderstatusmodel.cpp)\<close>

subsection \<open>Data\<close>

text \<open>\<open>Qt::CheckState\<close>, in the order of its enumerators.\<close>

datatype CheckState = Unchecked | PartiallyChecked | Checked

text \<open>
  \<open>FolderStatusModel::SubFolderInfo\<close>. The children \<open>_subs\<close> are held by value in a
  vector, so a node is a tree. \<open>_folder\<close> points to a folder of the folder manager; it is
  kept as the position of that folder in the manager's list, \<open>None\<close> for the null pointer.
\<close>

datatype SubFolderInfo = SubFolderInfo
  (folder: "nat option")
  (name: string)
  (path: string)
  (pathIdx: "nat list")
  (subs: "SubFolderInfo list")
  (sizeBytes: int)
  (fetched: bool)
  (fetching: bool)
  (checked: CheckState)

text \<open>
  Modelled from the spec: the constructor of \<open>SubFolderInfo\<close> is declared in
  folderstatusmodel.h, which is not among the sources. A new node has no folder, empty
  strings and vectors, size 0, is neither fetched nor being fetched, and is \<open>Checked\<close>
  (the spec's default for a child whose state the black list does not decide).
\<close>

definition SubFolderInfo0 :: SubFolderInfo where
  "SubFolderInfo0 = SubFolderInfo None [] [] [] [] 0 False False Checked"

text \<open>Assignments to single fields of a node.\<close>

definition set_checked :: "CheckState \<Rightarrow> SubFolderInfo \<Rightarrow> SubFolderInfo" where
  "set_checked c n = SubFolderInfo (folder n) (name n) (path n) (pathIdx n) (subs n)
     (sizeBytes n) (fetched n) (fetching n) c"

definition set_subs :: "SubFolderInfo list \<Rightarrow> SubFolderInfo \<Rightarrow> SubFolderInfo" where
  "set_subs ss n = SubFolderInfo (folder n) (name n) (path n) (pathIdx n) ss
     (sizeBytes n) (fetched n) (fetching n) (checked n)"

definition set_fetching :: "bool \<Rightarrow> SubFolderInfo \<Rightarrow> SubFolderInfo" where
  "set_fetching b n = SubFolderInfo (folder n) (name n) (path n) (pathIdx n) (subs n)
     (sizeBytes n) (fetched n) b (checked n)"

definition set_fetched :: "bool \<Rightarrow> SubFolderInfo \<Rightarrow> SubFolderInfo" where
  "set_fetched b n = SubFolderInfo (folder n) (name n) (path n) (pathIdx n) (subs n)
     (sizeBytes n) b (fetching n) (checked n)"

text \<open>
  The folders of the folder manager, with what the model reads from a \<open>Folder\<close> and what
  it does to one: \<open>terminateSyncCalls\<close> counts the calls of \<open>slotTerminateSync\<close>, and
  \<open>avoidReadFromDb\<close> is the set of paths given to the journal's
  \<open>avoidReadFromDbOnNextSync\<close>.
\<close>

record Folder =
  folderAlias :: string
  remotePath :: string
  remoteUrl :: QUrl
  selectiveSyncBlackList :: "string list"
  isBusy :: bool
  terminateSyncCalls :: nat
  avoidReadFromDb :: "string set"

text \<open>
  A \<open>QModelIndex\<close> is a row together with an internal pointer, which this model sets to
  the parent's \<open>SubFolderInfo\<close> (null for a top-level row). A pointer to a node is kept as
  the node's position: \<open>[r]\<close> is \<open>&_folders[r]\<close>, and \<open>p @ [k]\<close> is the \<open>k\<close>-th element of
  the \<open>_subs\<close> of the node at \<open>p\<close>. An index is then the position it stands for: \<open>[]\<close> is
  the invalid index, \<open>[r]\<close> the top-level row \<open>r\<close>, and \<open>p @ [k]\<close> the row \<open>k\<close> with
  internal pointer \<open>p\<close>.
\<close>

type_synonym QModelIndex = "nat list"

text \<open>
  An outstanding \<open>LsColJob\<close>: the path it lists, the properties it asks for, and its
  property \<open>oc_parentIndex\<close>, a persistent index.
\<close>

record LsColJob =
  jobPath :: string
  jobProperties :: "string list"
  parentIndex :: QModelIndex

text \<open>The signals of the model.\<close>

datatype signal =
  DirtyChanged
| DataChanged QModelIndex
| RowsInserted QModelIndex nat nat
| ModelReset

text \<open>
  The state: the values of the folder manager's map in the order of the map
  (\<open>folderMap\<close>), the aliases given to its \<open>slotScheduleSync\<close>, the fields \<open>_folders\<close> and
  \<open>_dirty\<close> of the model, the signals emitted so far and the jobs that have not finished.
\<close>

record FolderStatusModel =
  folderMap :: "Folder list"
  scheduled :: "string list"
  folders :: "SubFolderInfo list"
  dirty :: bool
  signals :: "signal list"
  jobs :: "LsColJob list"

text \<open>Reading and writing through a pointer to a node.\<close>

fun nodeAt :: "SubFolderInfo list \<Rightarrow> nat list \<Rightarrow> SubFolderInfo option" where
  "nodeAt fs [] = None"
| "nodeAt fs (r # p) =
     (if r < length fs then (if p = [] then Some (fs ! r) else nodeAt (subs (fs ! r)) p)
      else None)"

fun updateAt :: "(SubFolderInfo \<Rightarrow> SubFolderInfo) \<Rightarrow> nat list \<Rightarrow> SubFolderInfo list
    \<Rightarrow> SubFolderInfo list" where
  "updateAt f [] fs = fs"
| "updateAt f (r # p) fs =
     (if r < length fs
        then fs[r := (if p = [] then f (fs ! r)
                      else set_subs (updateAt f p (subs (fs ! r))) (fs ! r))]
      else fs)"

definition emit :: "signal list \<Rightarrow> FolderStatusModel \<Rightarrow> FolderStatusModel" where
  "emit sigs m = m\<lparr>signals := signals m @ sigs\<rparr>"

subsection \<open>\<open>FolderStatusModel::createBlackList\<close>\<close>

text \<open>The argument \<open>root\<close> is a pointer: \<open>None\<close> is the null pointer.\<close>

function createBlackList :: "SubFolderInfo option \<Rightarrow> string list \<Rightarrow> string list" where
  "createBlackList None oldBlackList = []"
| "createBlackList (Some root) oldBlackList =
     (case checked root of
        Unchecked \<Rightarrow> [path root]
      | Checked \<Rightarrow> []
      | PartiallyChecked \<Rightarrow>
          (if fetched root
             then concat (map (\<lambda>s. createBlackList (Some s) oldBlackList) (subs root))
           else filter (\<lambda>it. prefix (path root) it) oldBlackList))"
  by pat_completeness auto

lemma size_subs_less: "s \<in> set (subs root) \<Longrightarrow> size s < size root"
  by (cases root) (auto simp: less_Suc_eq_le dest: size_list_estimation')

termination createBlackList
  by (relation "measure (\<lambda>(r, old). case r of None \<Rightarrow> 0 | Some n \<Rightarrow> size n)")
     (auto simp: size_subs_less)

text \<open>Every node of the tree is \<open>Checked\<close>.\<close>

fun allChecked :: "SubFolderInfo \<Rightarrow> bool" where
  "allChecked (SubFolderInfo f n p pi ss sz fe fg c) =
     (c = Checked \<and> list_all allChecked ss)"

subsection \<open>Indices: \<open>infoForIndex\<close>, \<open>index\<close>, \<open>parent\<close>\<close>

text \<open>
  \<open>infoForIndex\<close> returns a pointer to the node of an index, null (\<open>None\<close>) for the
  invalid index and for the row of the add button. For a top-level row it grows
  \<open>_folders\<close> as needed and fills in a root that has no \<open>_pathIdx\<close> yet.
\<close>

definition initRoot :: "nat \<Rightarrow> Folder list \<Rightarrow> SubFolderInfo \<Rightarrow> SubFolderInfo" where
  "initRoot row fm info =
     SubFolderInfo (Some row) (folderAlias (fm ! row)) ''/'' (pathIdx info @ [row]) (subs info)
       (sizeBytes info) (fetched info) (fetching info) (checked info)"

definition infoForIndex ::
    "FolderStatusModel \<Rightarrow> QModelIndex \<Rightarrow> error + (FolderStatusModel \<times> nat list option)" where
  "infoForIndex m idx =
     (case idx of
        [] \<Rightarrow> Inr (m, None)
      | [row] \<Rightarrow>
          if row \<ge> length (folderMap m) then Inr (m, None)
          else
            let fs = (if length (folders m) \<le> row
                      then folders m @ replicate (row + 1 - length (folders m)) SubFolderInfo0
                      else folders m);
                fs = (if pathIdx (fs ! row) = []
                      then fs[row := initRoot row (folderMap m) (fs ! row)] else fs)
            in Inr (m\<lparr>folders := fs\<rparr>, Some [row])
      | _ \<Rightarrow>
          (case nodeAt (folders m) idx of
             None \<Rightarrow> Inl IndexOutOfRange
           | Some _ \<Rightarrow> Inr (m, Some idx)))"

text \<open>\<open>index(row, 0, parent)\<close>, which is also \<open>parent.child(row, 0)\<close>.\<close>

definition index :: "FolderStatusModel \<Rightarrow> nat \<Rightarrow> QModelIndex \<Rightarrow> error + QModelIndex" where
  "index m row parentIdx =
     (case parentIdx of
        [] \<Rightarrow> Inr [row]
      | [prow] \<Rightarrow>
          if prow < length (folderMap m)
            then (if length (folders m) \<le> prow then Inr [] else Inr [prow, row])
          else Inr []
      | _ \<Rightarrow>
          (case nodeAt (folders m) (butlast parentIdx) of
             None \<Rightarrow> Inl NullPointer
           | Some pp \<Rightarrow>
               if length (subs pp) \<le> last parentIdx then Inr []
               else if length (subs (subs pp ! last parentIdx)) \<le> row then Inr []
               else Inr (parentIdx @ [row])))"

text \<open>
  \<open>parent(child)\<close> finds the parent from the \<open>_pathIdx\<close> stored in the child's node:
  \<open>walk\<close> is its loop, with \<open>info\<close> the pointer it moves down from the root.
\<close>

function walk :: "SubFolderInfo list \<Rightarrow> nat list \<Rightarrow> nat \<Rightarrow> nat list \<Rightarrow> error + QModelIndex" where
  "walk fs pIdx i info =
     (if int i < int (length pIdx) - 2 then
        (case nodeAt fs info of
           None \<Rightarrow> Inl NullPointer
         | Some n \<Rightarrow>
             if pIdx ! i < length (subs n) then walk fs pIdx (Suc i) (info @ [pIdx ! i])
             else Inl IndexOutOfRange)
      else if i < length pIdx then Inr (info @ [pIdx ! i])
      else Inl IndexOutOfRange)"
  by pat_completeness auto

termination walk
  by (relation "measure (\<lambda>(fs, pIdx, i, info). length pIdx - i)") auto

declare walk.simps [simp del]

definition parent :: "FolderStatusModel \<Rightarrow> QModelIndex \<Rightarrow> error + QModelIndex" where
  "parent m child =
     (case child of
        [] \<Rightarrow> Inr []
      | [row] \<Rightarrow> Inr []
      | _ \<Rightarrow>
          (case nodeAt (folders m) child of
             None \<Rightarrow> Inl IndexOutOfRange
           | Some n \<Rightarrow>
               let pIdx = pathIdx n in
               if pIdx = [] then Inl IndexOutOfRange
               else if \<not> pIdx ! 0 < length (folders m) then Inl IndexOutOfRange
               else if length pIdx = 2 then Inr [pIdx ! 0]
               else walk (folders m) pIdx 1 [pIdx ! 0]))"

subsection \<open>\<open>FolderStatusModel::setData\<close> for the check state role\<close>

definition hasUnchecked :: "SubFolderInfo \<Rightarrow> bool" where
  "hasUnchecked parentInfo = list_ex (\<lambda>sub. checked sub \<noteq> Checked) (subs parentInfo)"

text \<open>
  Each of the three blocks of \<open>setData\<close>, for the new state \<open>Checked\<close>, \<open>Unchecked\<close> and
  \<open>PartiallyChecked\<close>, starts by taking the parent of the index and its node, and may
  call \<open>setData\<close> for the parent. \<open>parentCall v parentInfo\<close> is the state of that call, if
  the block for \<open>v\<close> makes one; \<open>checkParent\<close> is that part of the blocks, with the
  recursive call as the argument \<open>rec\<close>.
\<close>

definition parentCall :: "CheckState \<Rightarrow> SubFolderInfo \<Rightarrow> CheckState option" where
  "parentCall v parentInfo =
     (case v of
        Checked \<Rightarrow>
          if checked parentInfo \<noteq> Checked then
            (if \<not> hasUnchecked parentInfo then Some Checked
             else if checked parentInfo = Unchecked then Some PartiallyChecked
             else None)
          else None
      | Unchecked \<Rightarrow>
          if checked parentInfo = Checked then Some PartiallyChecked else None
      | PartiallyChecked \<Rightarrow>
          if checked parentInfo \<noteq> PartiallyChecked then Some PartiallyChecked else None)"

definition checkParent ::
    "(FolderStatusModel \<Rightarrow> QModelIndex \<Rightarrow> CheckState \<Rightarrow> error + FolderStatusModel)
     \<Rightarrow> CheckState \<Rightarrow> FolderStatusModel \<Rightarrow> QModelIndex \<Rightarrow> error + FolderStatusModel" where
  "checkParent rec v m idx =
     bindE (parent m idx) (\<lambda>par.
     bindE (infoForIndex m par) (\<lambda>(m, parentInfo).
       case parentInfo of
         None \<Rightarrow> Inr m
       | Some pp \<Rightarrow>
           (case nodeAt (folders m) pp of
              None \<Rightarrow> Inl NullPointer
            | Some pn \<Rightarrow>
                (case parentCall v pn of
                   None \<Rightarrow> Inr m
                 | Some v' \<Rightarrow> rec m par v'))))"

text \<open>
  \<open>setData n m idx v\<close> is \<open>setData(idx, v, Qt::CheckStateRole)\<close> with at most \<open>n\<close> nested
  calls; \<open>setChildren n m idx info i v\<close> is the loop over the children of the node at
  \<open>info\<close>, from the child \<open>i\<close> on.
\<close>

fun setData :: "nat \<Rightarrow> FolderStatusModel \<Rightarrow> QModelIndex \<Rightarrow> CheckState
      \<Rightarrow> error + FolderStatusModel"
and setChildren :: "nat \<Rightarrow> FolderStatusModel \<Rightarrow> QModelIndex \<Rightarrow> nat list \<Rightarrow> nat \<Rightarrow> CheckState
      \<Rightarrow> error + FolderStatusModel" where
  "setData 0 m idx v = Inl OutOfFuel"
| "setData (Suc n) m idx v =
     bindE (infoForIndex m idx) (\<lambda>(m, info).
     bindE (case info of
              None \<Rightarrow> Inr m
            | Some ip \<Rightarrow>
                (case nodeAt (folders m) ip of
                   None \<Rightarrow> Inl NullPointer
                 | Some node \<Rightarrow>
                     if checked node = v then Inr m
                     else
                       let m = m\<lparr>folders := updateAt (set_checked v) ip (folders m)\<rparr> in
                       bindE (checkParent (setData n) v m idx) (\<lambda>m.
                         if v = PartiallyChecked then Inr m
                         else setChildren n m idx ip 0 v)))
       (\<lambda>m. Inr (emit [DirtyChanged, DataChanged idx] (m\<lparr>dirty := True\<rparr>))))"
| "setChildren 0 m idx info i v = Inl OutOfFuel"
| "setChildren (Suc n) m idx info i v =
     (case nodeAt (folders m) info of
        None \<Rightarrow> Inl NullPointer
      | Some node \<Rightarrow>
          if i < length (subs node) then
            (if checked (subs node ! i) \<noteq> v
               then bindE (index m i idx) (\<lambda>c.
                    bindE (setData n m c v) (\<lambda>m. setChildren n m idx info (Suc i) v))
             else setChildren n m idx info (Suc i) v)
          else Inr m)"

subsection \<open>Fetching: \<open>canFetchMore\<close>, \<open>fetchMore\<close>, \<open>slotUpdateDirectories\<close>\<close>

definition canFetchMore :: "FolderStatusModel \<Rightarrow> QModelIndex \<Rightarrow> error + (FolderStatusModel \<times> bool)" where
  "canFetchMore m parentIdx =
     bindE (infoForIndex m parentIdx) (\<lambda>(m, info).
       case info of
         None \<Rightarrow> Inr (m, False)
       | Some ip \<Rightarrow>
           (case nodeAt (folders m) ip of
              None \<Rightarrow> Inl NullPointer
            | Some node \<Rightarrow> Inr (m, \<not> (fetched node \<or> fetching node))))"

definition fetchMore :: "FolderStatusModel \<Rightarrow> QModelIndex \<Rightarrow> error + FolderStatusModel" where
  "fetchMore m parentIdx =
     bindE (infoForIndex m parentIdx) (\<lambda>(m, info).
       case info of
         None \<Rightarrow> Inr m
       | Some ip \<Rightarrow>
           (case nodeAt (folders m) ip of
              None \<Rightarrow> Inl NullPointer
            | Some node \<Rightarrow>
                if fetched node \<or> fetching node then Inr m
                else
                  (case folder node of
                     None \<Rightarrow> Inl NullPointer
                   | Some f \<Rightarrow>
                       if f < length (folderMap m) then
                         Inr (m\<lparr>folders := updateAt (set_fetching True) ip (folders m),
                                jobs := jobs m @
                                  [\<lparr>jobPath = remotePath (folderMap m ! f) @ ''/'' @ path node,
                                    jobProperties = [''resourcetype'', ''quota-used-bytes''],
                                    parentIndex = parentIdx\<rparr>]\<rparr>)
                       else Inl NullPointer)))"

text \<open>
  The state a new child gets from the black list: the loop over the entries, which stops at
  an entry equal to the path or to \<open>/\<close>, and otherwise goes on after an entry that
  starts with the path. \<open>c\<close> is the state of the new node so far.
\<close>

fun blackListState :: "string \<Rightarrow> string list \<Rightarrow> CheckState \<Rightarrow> CheckState" where
  "blackListState p [] c = c"
| "blackListState p (str # rest) c =
     (if str = p \<or> str = ''/'' then Unchecked
      else if prefix p str then blackListState p rest PartiallyChecked
      else blackListState p rest c)"

definition initialChecked :: "Folder list \<Rightarrow> SubFolderInfo \<Rightarrow> string \<Rightarrow> CheckState \<Rightarrow> error + CheckState" where
  "initialChecked fm parentInfo p c =
     (if checked parentInfo = Unchecked then Inr Unchecked
      else
        (case pathIdx parentInfo of
           [] \<Rightarrow> Inl EmptyList
         | r # _ \<Rightarrow>
             if r < length fm then Inr (blackListState p (selectiveSyncBlackList (fm ! r)) c)
             else Inl IndexOutOfRange))"

definition sizeOf :: "(string \<Rightarrow> int option) \<Rightarrow> string \<Rightarrow> int" where
  "sizeOf sizes p = (case sizes p of None \<Rightarrow> 0 | Some n \<Rightarrow> n)"

text \<open>
  The body of the loop of \<open>slotUpdateDirectories\<close> for one listed path: the new node,
  or \<open>None\<close> where the body ends with \<open>continue\<close>. \<open>parentInfo\<close> is the node the
  pointer of that name points to and \<open>i\<close> the counter of the loop. The name is taken with
  \<open>last()\<close> before the test for an empty path.
\<close>

definition newSubFolderInfo :: "Folder list \<Rightarrow> (string \<Rightarrow> int option) \<Rightarrow> string \<Rightarrow> SubFolderInfo
    \<Rightarrow> nat \<Rightarrow> string \<Rightarrow> error + SubFolderInfo option" where
  "newSubFolderInfo fm sizes pathToRemove parentInfo i listed =
     (let p = removeStr pathToRemove listed in
      case splitSkipEmptyParts CHR ''/'' p of
        [] \<Rightarrow> Inl EmptyList
      | seg # segs \<Rightarrow>
          if p = [] then Inr None
          else
            bindE (initialChecked fm parentInfo p (checked SubFolderInfo0)) (\<lambda>c.
              Inr (Some (SubFolderInfo (folder parentInfo) (last (seg # segs)) p
                      (pathIdx parentInfo @ [i]) (subs SubFolderInfo0) (sizeOf sizes listed)
                      (fetched SubFolderInfo0) (fetching SubFolderInfo0) c))))"

text \<open>The loop, which appends the new nodes to the \<open>_subs\<close> of the parent.\<close>

fun appendSubs :: "Folder list \<Rightarrow> (string \<Rightarrow> int option) \<Rightarrow> string \<Rightarrow> SubFolderInfo \<Rightarrow> nat
    \<Rightarrow> string list \<Rightarrow> error + SubFolderInfo" where
  "appendSubs fm sizes pathToRemove parentInfo i [] = Inr parentInfo"
| "appendSubs fm sizes pathToRemove parentInfo i (listed # rest) =
     bindE (newSubFolderInfo fm sizes pathToRemove parentInfo i listed) (\<lambda>r.
       appendSubs fm sizes pathToRemove
         (case r of
            None \<Rightarrow> parentInfo
          | Some newInfo \<Rightarrow> set_subs (subs parentInfo @ [newInfo]) parentInfo)
         (Suc i) rest)"

text \<open>The string the slot removes from the listed paths: the path of the folder's remote URL,
  with a slash at its end.\<close>

definition pathToRemove :: "QUrl \<Rightarrow> string" where
  "pathToRemove url =
     (let p = url_path url in if \<not> endsWith p CHR ''/'' then p @ ''/'' else p)"

definition slotUpdateDirectories ::
    "FolderStatusModel \<Rightarrow> LsColJob \<Rightarrow> (string \<Rightarrow> int option) \<Rightarrow> string list
     \<Rightarrow> error + FolderStatusModel" where
  "slotUpdateDirectories m job sizes list0 =
     (let idx = parentIndex job in
      if idx = [] then Inr m
      else
        bindE (infoForIndex m idx) (\<lambda>(m, parentInfo).
          case list0 of
            [] \<Rightarrow> Inl EmptyList
          | _ # list1 \<Rightarrow>
              (case parentInfo of
                 None \<Rightarrow> Inl NullPointer
               | Some ip \<Rightarrow>
                   (case nodeAt (folders m) ip of
                      None \<Rightarrow> Inl NullPointer
                    | Some node \<Rightarrow>
                        (case folder node of
                           None \<Rightarrow> Inl NullPointer
                         | Some f \<Rightarrow>
                             if f < length (folderMap m) then
                               bindE (appendSubs (folderMap m) sizes
                                        (pathToRemove (remoteUrl (folderMap m ! f)))
                                        (set_fetching False (set_fetched True node)) 0 list1)
                                 (\<lambda>node'.
                                    Inr (emit [RowsInserted idx 0 (length list1)]
                                      (m\<lparr>folders :=
                                           updateAt (\<lambda>_. node') ip (folders m)\<rparr>)))
                             else Inl NullPointer)))))"

text \<open>
  The end of a job. \<open>fetchMore\<close> connects the signal \<open>directoryListingSubfolders\<close> of
  the job to \<open>slotUpdateDirectories\<close> and nothing else, so a job that ends with an error
  calls no slot of the model. The job is gone afterwards.
\<close>

datatype reply =
  DirectoryListingSubfolders "string list" "string \<Rightarrow> int option"
| FinishedWithError

definition jobFinished :: "FolderStatusModel \<Rightarrow> nat \<Rightarrow> reply \<Rightarrow> error + FolderStatusModel" where
  "jobFinished m j r =
     (if j < length (jobs m) then
        (let job = jobs m ! j;
             m = m\<lparr>jobs := take j (jobs m) @ drop (Suc j) (jobs m)\<rparr>
         in case r of
              DirectoryListingSubfolders list0 sizes \<Rightarrow> slotUpdateDirectories m job sizes list0
            | FinishedWithError \<Rightarrow> Inr m)
      else Inr m)"

subsection \<open>\<open>setAccount\<close>, \<open>resetFolders\<close>, \<open>slotApplySelectiveSync\<close>\<close>

text \<open>
  \<open>setAccount\<close> resets the model, which makes every persistent index invalid, those kept
  by the outstanding jobs included.
\<close>

definition setAccount :: "FolderStatusModel \<Rightarrow> FolderStatusModel" where
  "setAccount m =
     emit [ModelReset]
       (m\<lparr>dirty := False, folders := [],
          jobs := map (\<lambda>j. j\<lparr>parentIndex := []\<rparr>) (jobs m)\<rparr>)"

definition resetFolders :: "FolderStatusModel \<Rightarrow> FolderStatusModel" where
  "resetFolders m = setAccount m"

text \<open>
  The body of the loop of \<open>slotApplySelectiveSync\<close> for a fetched root \<open>i\<close>:
  \<open>changes\<close> is the set of that name, \<open>applyToFolder\<close> is what the body does to the
  folder, and \<open>applyFolder\<close> the whole body, with the call to the folder manager.
\<close>

definition changes :: "string list \<Rightarrow> string list \<Rightarrow> string set" where
  "changes oldBlackList blackList =
     (set oldBlackList - set blackList) \<union> (set blackList - set oldBlackList)"

definition applyToFolder :: "SubFolderInfo \<Rightarrow> Folder \<Rightarrow> Folder" where
  "applyToFolder root f =
     (let oldBlackList = selectiveSyncBlackList f;
          blackList = createBlackList (Some root) oldBlackList;
          f = f\<lparr>selectiveSyncBlackList := blackList\<rparr>
      in if changes oldBlackList blackList \<noteq> {} then
           (let f = (if isBusy f then f\<lparr>terminateSyncCalls := Suc (terminateSyncCalls f)\<rparr>
                     else f)
            in f\<lparr>avoidReadFromDb := avoidReadFromDb f \<union> changes oldBlackList blackList\<rparr>)
         else f)"

definition applyFolder :: "nat \<Rightarrow> FolderStatusModel \<Rightarrow> FolderStatusModel" where
  "applyFolder i m =
     (let f = folderMap m ! i;
          oldBlackList = selectiveSyncBlackList f;
          blackList = createBlackList (Some (folders m ! i)) oldBlackList
      in m\<lparr>folderMap := (folderMap m)[i := applyToFolder (folders m ! i) f],
            scheduled := (if changes oldBlackList blackList \<noteq> {}
                          then scheduled m @ [folderAlias f] else scheduled m)\<rparr>)"

lemma length_folderMap_applyFolder:
  "length (folderMap (applyFolder i m)) = length (folderMap m)"
  by (simp add: applyFolder_def Let_def)

function applyLoop :: "nat \<Rightarrow> FolderStatusModel \<Rightarrow> FolderStatusModel" where
  "applyLoop i m =
     (if i < length (folderMap m) then
        (if i \<ge> length (folders m) then m
         else if \<not> fetched (folders m ! i) then applyLoop (Suc i) m
         else applyLoop (Suc i) (applyFolder i m))
      else m)"
  by pat_completeness auto

termination applyLoop
  by (relation "measure (\<lambda>(i, m). length (folderMap m) - i)")
     (auto simp: length_folderMap_applyFolder)

declare applyLoop.simps [simp del]

definition slotApplySelectiveSync :: "FolderStatusModel \<Rightarrow> FolderStatusModel" where
  "slotApplySelectiveSync m = (if \<not> dirty m then m else resetFolders (applyLoop 0 m))"

subsection \<open>A node that is there\<close>

text \<open>
  The node of an index exists, and a root has been filled in by \<open>infoForIndex\<close> before.
\<close>

definition materialized :: "FolderStatusModel \<Rightarrow> QModelIndex \<Rightarrow> bool" where
  "materialized m idx =
     (case nodeAt (folders m) idx of
        None \<Rightarrow> False
      | Some n \<Rightarrow> length idx \<noteq> 1 \<or> (hd idx < length (folderMap m) \<and> pathIdx n \<noteq> []))"

subsection \<open>An example\<close>

text \<open>
  One sync folder with the remote URL path \<open>/dav\<close>, whose black list excludes
  \<open>photos/2020/\<close>, and a model that has not been asked for anything yet.
\<close>

definition exFolder :: Folder where
  "exFolder =
     \<lparr>folderAlias = ''home'', remotePath = ''/'',
      remoteUrl = \<lparr>url_scheme = ''https'', url_host = ''h'', url_port = 443,
                   url_path = ''/dav'', url_queryItems = []\<rparr>,
      selectiveSyncBlackList = [''photos/2020/''], isBusy = True,
      terminateSyncCalls = 0, avoidReadFromDb = {}\<rparr>"

definition exModel :: FolderStatusModel where
  "exModel = \<lparr>folderMap = [exFolder], scheduled = [], folders = [], dirty = False,
               signals = [], jobs = []\<rparr>"

text \<open>The root of the example once it has been filled in and asked for its children, and a
  model in which the folder \<open>x/\<close> of the root is being listed.\<close>

definition exRoot :: SubFolderInfo where
  "exRoot = SubFolderInfo (Some 0) ''home'' ''/'' [0] [] 0 False True Checked"

definition exModelX :: FolderStatusModel where
  "exModelX = exModel\<lparr>folders :=
     [SubFolderInfo (Some 0) ''home'' ''/'' [0]
        [SubFolderInfo (Some 0) ''x'' ''x/'' [0, 0] [] 0 False True Checked] 0 True False
        Checked],
     jobs := [\<lparr>jobPath = ''//x/'', jobProperties = [''resourcetype'', ''quota-used-bytes''],
               parentIndex = [0, 0]\<rparr>]\<rparr>"

definition noSizes :: "string \<Rightarrow> int option" where
  "noSizes = (\<lambda>p. None)"

subsection \<open>More examples, and the roots that are projected\<close>

text \<open>
  The example after \<open>fetchMore\<close> for the root, after the failure of that job, after a
  listing of the root, and after the folder \<open>docs/\<close> has been unchecked. A root is
  projected by \<open>slotApplySelectiveSync\<close> when it is there and fetched; \<open>changesAt\<close> is
  the set \<open>changes\<close> of its folder.
\<close>

definition exFetching :: FolderStatusModel where
  "exFetching = exModel\<lparr>folders := [exRoot],
     jobs := [\<lparr>jobPath = ''///'', jobProperties = [''resourcetype'', ''quota-used-bytes''],
               parentIndex = [0]\<rparr>]\<rparr>"


definition projected :: "FolderStatusModel \<Rightarrow> nat \<Rightarrow> bool" where
  "projected m i = (i < length (folders m) \<and> fetched (folders m ! i))"

definition changesAt :: "FolderStatusModel \<Rightarrow> nat \<Rightarrow> string set" where
  "changesAt m i =
     changes (selectiveSyncBlackList (folderMap m ! i))
       (createBlackList (Some (folders m ! i)) (selectiveSyncBlackList (folderMap m ! i)))"

definition exFetched :: FolderStatusModel where
  "exFetched = exModel\<lparr>folders :=
     [SubFolderInfo (Some 0) ''home'' ''/'' [0]
        [SubFolderInfo (Some 0) ''photos'' ''photos/'' [0, 0] [] 0 False False PartiallyChecked,
         SubFolderInfo (Some 0) ''docs'' ''docs/'' [0, 1] [] 0 False False Checked]
        0 True False Checked]\<rparr>"

definition exDirty :: FolderStatusModel where
  "exDirty = exModel\<lparr>folders :=
     [SubFolderInfo (Some 0) ''home'' ''/'' [0]
        [SubFolderInfo (Some 0) ''photos'' ''photos/'' [0, 0] [] 0 False False PartiallyChecked,
         SubFolderInfo (Some 0) ''docs'' ''docs/'' [0, 1] [] 0 False False Unchecked]
        0 True False PartiallyChecked],
     dirty := True\<rparr>"

subsection \<open>The addressing of the nodes, and what \<open>setData\<close> computes\<close>

text \<open>
  \<open>wellAddressed\<close>: a node below a root has as its \<open>_pathIdx\<close> the position it stands at,
  a root has its row or is not filled in yet (and then has no children), and \<open>_folders\<close> is
  not longer than the list of folders. \<open>cascade\<close>, \<open>downSignals\<close> and \<open>up\<close> describe the
  result of \<open>setData\<close> without the bound on the nested calls: what the loop over the
  children does to a subtree and which signals it emits, and the state after the node is set
  and its parent has been dealt with. The rest are the example trees.
\<close>

fun addressedFrom :: "nat list \<Rightarrow> SubFolderInfo \<Rightarrow> bool"
and addressedList :: "nat list \<Rightarrow> nat \<Rightarrow> SubFolderInfo list \<Rightarrow> bool" where
  "addressedFrom a (SubFolderInfo f n p pi ss sz fe fg c) = (pi = a \<and> addressedList a 0 ss)"
| "addressedList a i [] = True"
| "addressedList a i (s # ss) = (addressedFrom (a @ [i]) s \<and> addressedList a (Suc i) ss)"

fun rootsAddressed :: "nat \<Rightarrow> SubFolderInfo list \<Rightarrow> bool" where
  "rootsAddressed r [] = True"
| "rootsAddressed r (n # fs) =
     ((pathIdx n = [] \<and> subs n = [] \<or> addressedFrom [r] n) \<and> rootsAddressed (Suc r) fs)"

definition wellAddressed :: "FolderStatusModel \<Rightarrow> bool" where
  "wellAddressed m =
     (length (folders m) \<le> length (folderMap m) \<and> rootsAddressed 0 (folders m))"

declare setData.simps [simp del] setChildren.simps [simp del]

definition changed :: "FolderStatusModel \<Rightarrow> QModelIndex \<Rightarrow> FolderStatusModel" where
  "changed m idx = emit [DirtyChanged, DataChanged idx] (m\<lparr>dirty := True\<rparr>)"

definition runs :: "FolderStatusModel \<Rightarrow> QModelIndex \<Rightarrow> CheckState \<Rightarrow> FolderStatusModel \<Rightarrow> bool" where
  "runs m idx v m' = (\<exists>n. setData n m idx v = Inr m')"

definition runsChildren ::
    "FolderStatusModel \<Rightarrow> QModelIndex \<Rightarrow> nat \<Rightarrow> CheckState \<Rightarrow> FolderStatusModel \<Rightarrow> bool" where
  "runsChildren m idx i v m' = (\<exists>n. setChildren n m idx idx i v = Inr m')"

fun cascade :: "CheckState \<Rightarrow> SubFolderInfo \<Rightarrow> SubFolderInfo" where
  "cascade v (SubFolderInfo f n p pi ss sz fe fg c) =
     SubFolderInfo f n p pi (map (\<lambda>s. if checked s \<noteq> v then cascade v s else s) ss) sz fe fg v"

definition cascadeIf :: "CheckState \<Rightarrow> SubFolderInfo \<Rightarrow> SubFolderInfo" where
  "cascadeIf v s = (if checked s \<noteq> v then cascade v s else s)"

definition cascadeFrom :: "CheckState \<Rightarrow> nat \<Rightarrow> SubFolderInfo \<Rightarrow> SubFolderInfo" where
  "cascadeFrom v i n = set_subs (take i (subs n) @ map (cascadeIf v) (drop i (subs n))) n"

fun downSignals :: "CheckState \<Rightarrow> nat list \<Rightarrow> SubFolderInfo \<Rightarrow> signal list"
and downSignalsFrom :: "CheckState \<Rightarrow> nat list \<Rightarrow> nat \<Rightarrow> SubFolderInfo list \<Rightarrow> signal list" where
  "downSignals v c (SubFolderInfo f n p pi ss sz fe fg st) =
     downSignalsFrom v c 0 ss @ [DirtyChanged, DataChanged c]"
| "downSignalsFrom v c i [] = []"
| "downSignalsFrom v c i (s # ss) =
     (if checked s \<noteq> v then downSignals v (c @ [i]) s else []) @ downSignalsFrom v c (Suc i) ss"

definition loopResult :: "CheckState \<Rightarrow> QModelIndex \<Rightarrow> nat \<Rightarrow> SubFolderInfo \<Rightarrow> FolderStatusModel
    \<Rightarrow> FolderStatusModel" where
  "loopResult v idx i node m =
     m\<lparr>folders := updateAt (cascadeFrom v i) idx (folders m),
       dirty := dirty m \<or> downSignalsFrom v idx i (drop i (subs node)) \<noteq> [],
       signals := signals m @ downSignalsFrom v idx i (drop i (subs node))\<rparr>"

definition downResult :: "CheckState \<Rightarrow> QModelIndex \<Rightarrow> SubFolderInfo \<Rightarrow> FolderStatusModel
    \<Rightarrow> FolderStatusModel" where
  "downResult v c node m =
     m\<lparr>folders := updateAt (cascade v) c (folders m), dirty := True,
       signals := signals m @ downSignals v c node\<rparr>"

definition downOK :: "CheckState \<Rightarrow> QModelIndex \<Rightarrow> SubFolderInfo \<Rightarrow> bool" where
  "downOK v c node =
     (\<forall>m. wellAddressed m \<and> nodeAt (folders m) c = Some node \<and> checked node \<noteq> v \<and>
          2 \<le> length c \<and> map_option checked (nodeAt (folders m) (butlast c)) = Some v
          \<longrightarrow> runs m c v (downResult v c node m))"

function up :: "CheckState \<Rightarrow> FolderStatusModel \<Rightarrow> QModelIndex \<Rightarrow> FolderStatusModel" where
  "up v m p =
     (let m1 = m\<lparr>folders := updateAt (set_checked v) p (folders m)\<rparr> in
      if 2 \<le> length p then
        (case nodeAt (folders m1) (butlast p) of
           None \<Rightarrow> m1
         | Some pn \<Rightarrow>
             (case parentCall v pn of
                None \<Rightarrow> m1
              | Some v' \<Rightarrow> changed (up v' m1 (butlast p)) (butlast p)))
      else m1)"
  by pat_completeness auto

termination up
  by (relation "measure (\<lambda>(v, m, p). length p)") auto

declare up.simps [simp del]

definition setDataResult :: "CheckState \<Rightarrow> FolderStatusModel \<Rightarrow> QModelIndex \<Rightarrow> SubFolderInfo
    \<Rightarrow> FolderStatusModel" where
  "setDataResult v m idx node =
     changed (if v = PartiallyChecked then up v m idx
              else loopResult v idx 0 (set_checked v node) (up v m idx)) idx"

definition sameAncestors :: "FolderStatusModel \<Rightarrow> FolderStatusModel \<Rightarrow> QModelIndex \<Rightarrow> bool" where
  "sameAncestors m' m'' idx =
     (\<forall>k<length idx. map_option checked (nodeAt (folders m') (take k idx))
        = map_option checked (nodeAt (folders m'') (take k idx)))"

definition exDeep :: FolderStatusModel where
  "exDeep = exModel\<lparr>folders :=
     [SubFolderInfo (Some 0) ''home'' ''/'' [0]
        [SubFolderInfo (Some 0) ''photos'' ''photos/'' [0, 0]
           [SubFolderInfo (Some 0) ''2020'' ''photos/2020/'' [0, 0, 0]
              [SubFolderInfo (Some 0) ''jan'' ''photos/2020/jan/'' [0, 0, 0, 0] [] 0 False False
                 Unchecked]
              0 True False Checked,
            SubFolderInfo (Some 0) ''2021'' ''photos/2021/'' [0, 0, 1] [] 0 False False Unchecked]
           0 True False PartiallyChecked]
        0 True False PartiallyChecked],
     dirty := True\<rparr>"

definition exDeepChecked :: FolderStatusModel where
  "exDeepChecked = exModel\<lparr>folders :=
     [SubFolderInfo (Some 0) ''home'' ''/'' [0]
        [SubFolderInfo (Some 0) ''photos'' ''photos/'' [0, 0]
           [SubFolderInfo (Some 0) ''2020'' ''photos/2020/'' [0, 0, 0]
              [SubFolderInfo (Some 0) ''jan'' ''photos/2020/jan/'' [0, 0, 0, 0] [] 0 False False
                 Unchecked]
              0 True False Checked,
            SubFolderInfo (Some 0) ''2021'' ''photos/2021/'' [0, 0, 1] [] 0 False False Checked]
           0 True False Checked]
        0 True False Checked],
     dirty := True,
     signals := [DirtyChanged, DataChanged [0], DirtyChanged, DataChanged [0, 0, 1],
                 DirtyChanged, DataChanged [0, 0]]\<rparr>"

definition exSettled :: FolderStatusModel where
  "exSettled = exModel\<lparr>folders :=
     [SubFolderInfo (Some 0) ''home'' ''/'' [0]
        [SubFolderInfo (Some 0) ''photos'' ''photos/'' [0, 0]
           [SubFolderInfo (Some 0) ''2020'' ''photos/2020/'' [0, 0, 0]
              [SubFolderInfo (Some 0) ''jan'' ''photos/2020/jan/'' [0, 0, 0, 0] [] 0 False False
                 Unchecked]
              0 True False Unchecked,
            SubFolderInfo (Some 0) ''2021'' ''photos/2021/'' [0, 0, 1] [] 0 False False Checked]
           0 True False PartiallyChecked]
        0 True False PartiallyChecked]\<rparr>"

definition exPhotos :: SubFolderInfo where
  "exPhotos =
     SubFolderInfo (Some 0) ''photos'' ''photos/'' [0, 0]
       [SubFolderInfo (Some 0) ''2020'' ''photos/2020/'' [0, 0, 0]
          [SubFolderInfo (Some 0) ''jan'' ''photos/2020/jan/'' [0, 0, 0, 0] [] 0 False False
             Unchecked]
          0 True False Unchecked,
        SubFolderInfo (Some 0) ''2021'' ''photos/2021/'' [0, 0, 1] [] 0 False False Checked]
       0 True False PartiallyChecked"

text \<open>
  A tree in which every folder is \<open>Checked\<close>, and the model after \<open>photos/2020/\<close> has been
  unchecked in it.
\<close>

definition exAllChecked :: FolderStatusModel where
  "exAllChecked = exModel\<lparr>folders :=
     [SubFolderInfo (Some 0) ''home'' ''/'' [0]
        [SubFolderInfo (Some 0) ''photos'' ''photos/'' [0, 0]
           [SubFolderInfo (Some 0) ''2020'' ''photos/2020/'' [0, 0, 0] [] 0 False False Checked,
            SubFolderInfo (Some 0) ''2021'' ''photos/2021/'' [0, 0, 1] [] 0 False False Checked]
           0 True False Checked]
        0 True False Checked]\<rparr>"

definition exOneUnchecked :: FolderStatusModel where
  "exOneUnchecked = exModel\<lparr>folders :=
     [SubFolderInfo (Some 0) ''home'' ''/'' [0]
        [SubFolderInfo (Some 0) ''photos'' ''photos/'' [0, 0]
           [SubFolderInfo (Some 0) ''2020'' ''photos/2020/'' [0, 0, 0] [] 0 False False Unchecked,
            SubFolderInfo (Some 0) ''2021'' ''photos/2021/'' [0, 0, 1] [] 0 False False Checked]
           0 True False PartiallyChecked]
        0 True False PartiallyChecked],
     dirty := True,
     signals := [DirtyChanged, DataChanged [0], DirtyChanged, DataChanged [0, 0],
                 DirtyChanged, DataChanged [0, 0, 0]]\<rparr>"

text \<open>
  \<open>stateAt\<close> is the check state of the node at an index, \<open>emitted\<close> the signals that a call
  has added to those emitted before it; \<open>exRechecked\<close> is the all-checked tree after
  \<open>photos/\<close> has been set to \<open>Checked\<close> once more.
\<close>

definition stateAt :: "FolderStatusModel \<Rightarrow> QModelIndex \<Rightarrow> CheckState option" where
  "stateAt m q = map_option checked (nodeAt (folders m) q)"

definition emitted :: "FolderStatusModel \<Rightarrow> FolderStatusModel \<Rightarrow> signal list" where
  "emitted m m' = drop (length (signals m)) (signals m')"

definition exRechecked :: FolderStatusModel where
  "exRechecked = exAllChecked\<lparr>dirty := True, signals := [DirtyChanged, DataChanged [0, 0]]\<rparr>"

text \<open>
  The join with exactly one slash at the junction, as the specification words it and not
  taken from the code of \<open>concatUrlPath\<close>: the base path without the slashes at its end, one
  slash, and the relative path without the slashes at its start.
\<close>

definition joinedByOneSlash :: "string \<Rightarrow> string \<Rightarrow> string" where
  "joinedByOneSlash base rel =
     rev (dropWhile (\<lambda>c. c = CHR ''/'') (rev base)) @ ''/'' @ dropWhile (\<lambda>c. c = CHR ''/'') rel"

text \<open>
  A second sync folder, which is not busy, and a dirty model with four folders: the first
  root is fetched, with \<open>photos/\<close> checked again and \<open>docs/\<close> unchecked; the second is not
  fetched; the third is fetched and all checked; the fourth is fetched and its black list
  stays empty.
\<close>

definition exFolder2 :: Folder where
  "exFolder2 =
     \<lparr>folderAlias = ''work'', remotePath = ''/'',
      remoteUrl = \<lparr>url_scheme = ''https'', url_host = ''h'', url_port = 443,
                   url_path = ''/work'', url_queryItems = []\<rparr>,
      selectiveSyncBlackList = [''tmp/''], isBusy = False,
      terminateSyncCalls = 0, avoidReadFromDb = {}\<rparr>"

definition exBoth :: FolderStatusModel where
  "exBoth =
     \<lparr>folderMap = [exFolder, exFolder2, exFolder2, exFolder2\<lparr>selectiveSyncBlackList := []\<rparr>],
      scheduled = [],
      folders =
        [SubFolderInfo (Some 0) ''home'' ''/'' [0]
           [SubFolderInfo (Some 0) ''photos'' ''photos/'' [0, 0] [] 0 False False Checked,
            SubFolderInfo (Some 0) ''docs'' ''docs/'' [0, 1] [] 0 False False Unchecked]
           0 True False PartiallyChecked,
         SubFolderInfo (Some 1) ''work'' ''/'' [1] [] 0 False False Unchecked,
         SubFolderInfo (Some 2) ''work'' ''/'' [2]
           [SubFolderInfo (Some 2) ''tmp'' ''tmp/'' [2, 0] [] 0 False False Checked]
           0 True False Checked,
         SubFolderInfo (Some 3) ''work'' ''/'' [3] [] 0 True False Checked],
      dirty = True, signals = [], jobs = []\<rparr>"

text \<open>
  The model as its constructor leaves it: no node and no job; the constructor sets no field,
  so the value of \<open>_dirty\<close> is a parameter, as is the map of the folder manager.
  \<open>operation\<close> names the calls that change a model, \<open>perform\<close> is one call, with the bound on
  the nested calls for \<open>setData\<close>, and \<open>run\<close> is a sequence of calls from left to right, which
  ends at the first failure. \<open>consistent\<close> is what every run keeps: the addressing, that a
  node which is not fetched has no children (\<open>unfetchedEmpty\<close>), and that every job with a valid
  index stands for a node that is being fetched and is not fetched yet, no two jobs for the
  same node (\<open>jobsPending\<close>). \<open>exListed\<close> is the example after its root has been listed.
\<close>

definition newModel :: "Folder list \<Rightarrow> bool \<Rightarrow> FolderStatusModel" where
  "newModel fm d =
     \<lparr>folderMap = fm, scheduled = [], folders = [], dirty = d, signals = [], jobs = []\<rparr>"

datatype operation =
  InfoForIndex QModelIndex
| CanFetchMore QModelIndex
| FetchMore QModelIndex
| JobFinished nat reply
| SetData nat QModelIndex CheckState
| SetAccount
| SlotApplySelectiveSync

fun perform :: "operation \<Rightarrow> FolderStatusModel \<Rightarrow> error + FolderStatusModel" where
  "perform (InfoForIndex idx) m = bindE (infoForIndex m idx) (\<lambda>(m, info). Inr m)"
| "perform (CanFetchMore idx) m = bindE (canFetchMore m idx) (\<lambda>(m, b). Inr m)"
| "perform (FetchMore idx) m = fetchMore m idx"
| "perform (JobFinished j r) m = jobFinished m j r"
| "perform (SetData n idx v) m = setData n m idx v"
| "perform SetAccount m = Inr (setAccount m)"
| "perform SlotApplySelectiveSync m = Inr (slotApplySelectiveSync m)"

fun run :: "operation list \<Rightarrow> FolderStatusModel \<Rightarrow> error + FolderStatusModel" where
  "run [] m = Inr m"
| "run (op # ops) m = bindE (perform op m) (run ops)"

definition unfetchedEmpty :: "SubFolderInfo list \<Rightarrow> bool" where
  "unfetchedEmpty fs = (\<forall>q n. nodeAt fs q = Some n \<longrightarrow> \<not> fetched n \<longrightarrow> subs n = [])"

definition jobsPending :: "SubFolderInfo list \<Rightarrow> LsColJob list \<Rightarrow> bool" where
  "jobsPending fs js =
     ((\<forall>job\<in>set js. parentIndex job \<noteq> [] \<longrightarrow>
         (\<exists>n. nodeAt fs (parentIndex job) = Some n \<and> fetching n \<and> \<not> fetched n)) \<and>
      distinct (filter (\<lambda>p. p \<noteq> []) (map parentIndex js)))"

definition consistent :: "FolderStatusModel \<Rightarrow> bool" where
  "consistent m = (wellAddressed m \<and> unfetchedEmpty (folders m) \<and> jobsPending (folders m) (jobs m))"

definition exListed :: FolderStatusModel where
  "exListed = exFetched\<lparr>signals := [RowsInserted [0] 0 2]\<rparr>"

section \<open>Lemmas\<close>

lemma bindE_Inr_iff: "bindE x f = Inr y \<longleftrightarrow> (\<exists>a. x = Inr a \<and> f a = Inr y)"
  by (cases x) (auto simp: bindE_def)

lemma bindE_Inr [simp]: "bindE (Inr a) f = f a"
  by (simp add: bindE_def)

lemma bindE_Inl [simp]: "bindE (Inl e) f = Inl e"
  by (simp add: bindE_def)

lemma sel_set_subs [simp]:
  "folder (set_subs ss n) = folder n" "name (set_subs ss n) = name n"
  "path (set_subs ss n) = path n" "pathIdx (set_subs ss n) = pathIdx n"
  "subs (set_subs ss n) = ss" "sizeBytes (set_subs ss n) = sizeBytes n"
  "fetched (set_subs ss n) = fetched n" "fetching (set_subs ss n) = fetching n"
  "checked (set_subs ss n) = checked n"
  by (simp_all add: set_subs_def)

lemma set_subs_set_subs [simp]: "set_subs ss (set_subs ss' n) = set_subs ss n"
  by (simp add: set_subs_def)

lemma blackListState_eq:
  "blackListState p bl c =
     (if p \<in> set bl \<or> ''/'' \<in> set bl then Unchecked
      else if (\<exists>str\<in>set bl. prefix p str) then PartiallyChecked else c)"
  by (induction bl arbitrary: c) auto

lemma splitSkipEmptyParts_Nil [simp]: "splitSkipEmptyParts sep [] = []"
  by (simp add: splitSkipEmptyParts_def)

lemma newSubFolderInfo_not_None: "newSubFolderInfo fm sizes ptr n i l \<noteq> Inr None"
  by (auto simp: newSubFolderInfo_def Let_def bindE_Inr_iff split: list.splits)

lemma initialChecked_set_subs [simp]:
  "initialChecked fm (set_subs ss n) p c = initialChecked fm n p c"
  by (simp add: initialChecked_def)

lemma newSubFolderInfo_set_subs [simp]:
  "newSubFolderInfo fm sizes ptr (set_subs ss n) i l = newSubFolderInfo fm sizes ptr n i l"
  by (simp add: newSubFolderInfo_def Let_def split: list.splits)

lemma appendSubs_Inr:
  "appendSubs fm sizes ptr n i l = Inr n' \<Longrightarrow>
     \<exists>cs. n' = set_subs (subs n @ cs) n \<and> length cs = length l \<and>
       (\<forall>k<length l. newSubFolderInfo fm sizes ptr n (i + k) (l ! k) = Inr (Some (cs ! k)))"
proof (induction l arbitrary: n i)
  case Nil
  then show ?case by (simp add: set_subs_def)
next
  case (Cons listed rest)
  from Cons.prems obtain r where r: "newSubFolderInfo fm sizes ptr n i listed = Inr r"
    and rest: "appendSubs fm sizes ptr
         (case r of None \<Rightarrow> n | Some newInfo \<Rightarrow> set_subs (subs n @ [newInfo]) n)
         (Suc i) rest = Inr n'"
    by (auto simp: bindE_Inr_iff)
  from r obtain c where c: "r = Some c"
    using newSubFolderInfo_not_None [of fm sizes ptr n i listed] by (cases r) auto
  from Cons.IH [OF rest [unfolded c option.case]] obtain cs where
    cs: "n' = set_subs (subs (set_subs (subs n @ [c]) n) @ cs) (set_subs (subs n @ [c]) n)"
      "length cs = length rest"
      "\<forall>k<length rest. newSubFolderInfo fm sizes ptr n (Suc i + k) (rest ! k) = Inr (Some (cs ! k))"
    by auto
  have "\<forall>k<length (listed # rest).
          newSubFolderInfo fm sizes ptr n (i + k) ((listed # rest) ! k) = Inr (Some ((c # cs) ! k))"
  proof (intro allI impI)
    fix k assume "k < length (listed # rest)"
    then show "newSubFolderInfo fm sizes ptr n (i + k) ((listed # rest) ! k) = Inr (Some ((c # cs) ! k))"
      using r c cs(3) by (cases k) auto
  qed
  with cs(1,2) show ?case
    by (intro exI [of _ "c # cs"]) simp
qed

lemma appendSubs_total:
  "(\<forall>k<length l. \<exists>c. newSubFolderInfo fm sizes ptr n (i + k) (l ! k) = Inr (Some c)) \<Longrightarrow>
     \<exists>n'. appendSubs fm sizes ptr n i l = Inr n'"
proof (induction l arbitrary: n i)
  case Nil
  then show ?case by simp
next
  case (Cons listed rest)
  from Cons.prems [rule_format, of 0] obtain c where
    c: "newSubFolderInfo fm sizes ptr n i listed = Inr (Some c)" by auto
  have "\<forall>k<length rest. \<exists>c'. newSubFolderInfo fm sizes ptr (set_subs (subs n @ [c]) n) (Suc i + k) (rest ! k) = Inr (Some c')"
    using Cons.prems by (auto dest: spec [of _ "Suc k" for k])
  from Cons.IH [OF this] show ?case using c by simp
qed

lemma sel_set_checked [simp]:
  "folder (set_checked c n) = folder n" "name (set_checked c n) = name n"
  "path (set_checked c n) = path n" "pathIdx (set_checked c n) = pathIdx n"
  "subs (set_checked c n) = subs n" "sizeBytes (set_checked c n) = sizeBytes n"
  "fetched (set_checked c n) = fetched n" "fetching (set_checked c n) = fetching n"
  "checked (set_checked c n) = c"
  by (simp_all add: set_checked_def)

lemma sel_set_fetched [simp]:
  "folder (set_fetched c n) = folder n" "name (set_fetched c n) = name n"
  "path (set_fetched c n) = path n" "pathIdx (set_fetched c n) = pathIdx n"
  "subs (set_fetched c n) = subs n" "sizeBytes (set_fetched c n) = sizeBytes n"
  "fetched (set_fetched c n) = c" "fetching (set_fetched c n) = fetching n"
  "checked (set_fetched c n) = checked n"
  by (simp_all add: set_fetched_def)

lemma sel_set_fetching [simp]:
  "folder (set_fetching c n) = folder n" "name (set_fetching c n) = name n"
  "path (set_fetching c n) = path n" "pathIdx (set_fetching c n) = pathIdx n"
  "subs (set_fetching c n) = subs n" "sizeBytes (set_fetching c n) = sizeBytes n"
  "fetched (set_fetching c n) = fetched n" "fetching (set_fetching c n) = c"
  "checked (set_fetching c n) = checked n"
  by (simp_all add: set_fetching_def)

lemma length_updateAt [simp]: "length (updateAt f p fs) = length fs"
  by (cases p) auto

lemma nodeAt_updateAt_same:
  "nodeAt fs p = Some n \<Longrightarrow> nodeAt (updateAt f p fs) p = Some (f n)"
proof (induction p arbitrary: fs)
  case Nil
  then show ?case by simp
next
  case (Cons r q)
  then show ?case by (cases "q = []") (auto split: if_splits)
qed

lemma infoForIndex_materialized:
  "materialized m idx \<Longrightarrow> infoForIndex m idx = Inr (m, Some idx)"
proof -
  assume mat: "materialized m idx"
  then obtain n where n: "nodeAt (folders m) idx = Some n"
    by (auto simp: materialized_def split: option.splits)
  show ?thesis
  proof (cases idx)
    case Nil
    with n show ?thesis by simp
  next
    case (Cons r q)
    show ?thesis
    proof (cases q)
      case Nil
      with Cons mat n show ?thesis
        by (auto simp: materialized_def infoForIndex_def Let_def split: if_splits)
    next
      case (Cons k q')
      with \<open>idx = r # q\<close> n show ?thesis
        by (simp add: infoForIndex_def del: nodeAt.simps)
    qed
  qed
qed

lemma slotUpdateDirectories_Inr:
  assumes "materialized m (parentIndex job)"
    and "nodeAt (folders m) (parentIndex job) = Some node"
    and "slotUpdateDirectories m job sizes (first # list1) = Inr m'"
  shows "\<exists>f node'. folder node = Some f \<and> f < length (folderMap m) \<and>
           appendSubs (folderMap m) sizes (pathToRemove (remoteUrl (folderMap m ! f)))
             (set_fetching False (set_fetched True node)) 0 list1 = Inr node' \<and>
           m' = emit [RowsInserted (parentIndex job) 0 (length list1)]
                  (m\<lparr>folders := updateAt (\<lambda>_. node') (parentIndex job) (folders m)\<rparr>)"
proof -
  from assms(1,2) have ne: "parentIndex job \<noteq> []" by auto
  show ?thesis
    using assms(2,3) ne infoForIndex_materialized [OF assms(1)]
    by (auto simp: slotUpdateDirectories_def Let_def bindE_Inr_iff
             split: option.splits if_splits)
qed

lemma splitFrom_Nil_iff: "splitFrom sep cur s = [] \<longleftrightarrow> cur = [] \<and> set s \<subseteq> {sep}"
  by (induction s arbitrary: cur) auto

lemma splitFrom_last:
  "splitFrom sep cur s \<noteq> [] \<Longrightarrow> sep \<notin> set cur \<Longrightarrow>
     \<exists>pre post. cur @ s = pre @ last (splitFrom sep cur s) @ post \<and> set post \<subseteq> {sep} \<and>
       (pre = [] \<or> last pre = sep) \<and> last (splitFrom sep cur s) \<noteq> [] \<and>
       sep \<notin> set (last (splitFrom sep cur s))"
proof (induction s arbitrary: cur)
  case Nil
  then show ?case
    by (intro exI [of _ "[]"]) (auto split: if_splits)
next
  case (Cons c cs)
  show ?case
  proof (cases "c = sep")
    case False
    with Cons.prems have "splitFrom sep (cur @ [c]) cs \<noteq> []" "sep \<notin> set (cur @ [c])"
      by auto
    from Cons.IH [OF this] False show ?thesis by simp
  next
    case True
    show ?thesis
    proof (cases "splitFrom sep [] cs = []")
      case True
      with \<open>c = sep\<close> Cons.prems have cur: "cur \<noteq> []" by (auto split: if_splits)
      from True have "set cs \<subseteq> {sep}" by (simp add: splitFrom_Nil_iff)
      with cur \<open>c = sep\<close> True Cons.prems(2) show ?thesis
        by (intro exI [of _ "[]"] exI [of _ "sep # cs"]) auto
    next
      case False
      from Cons.IH [OF False] obtain pre post where
        pp: "cs = pre @ last (splitFrom sep [] cs) @ post" "set post \<subseteq> {sep}"
          "pre = [] \<or> last pre = sep" "last (splitFrom sep [] cs) \<noteq> []"
          "sep \<notin> set (last (splitFrom sep [] cs))"
        by auto
      have "cur @ c # cs = (cur @ sep # pre) @ last (splitFrom sep [] cs) @ post"
        using pp(1) \<open>c = sep\<close> by simp
      moreover have "last (cur @ sep # pre) = sep" using pp(3) by auto
      moreover have "last (splitFrom sep cur (c # cs)) = last (splitFrom sep [] cs)"
        using \<open>c = sep\<close> False by simp
      ultimately show ?thesis using pp(2,4,5)
        by (intro exI [of _ "cur @ sep # pre"] exI [of _ post]) simp
    qed
  qed
qed

lemma removeStr_prefix: "str \<noteq> [] \<Longrightarrow> removeStr str (str @ rest) = removeStr str rest"
  by (subst removeStr.simps) simp

lemma removeStr_no_occurrence: "\<not> sublist str s \<Longrightarrow> removeStr str s = s"
proof (induction str s rule: removeStr.induct)
  case (1 str s)
  show ?case
  proof (cases "str = [] \<or> s = []")
    case True
    then show ?thesis by (subst removeStr.simps) simp
  next
    case False
    with "1.prems" have np: "\<not> prefix str s" by (auto dest: prefix_imp_sublist)
    from False obtain c cs where s: "s = c # cs" by (cases s) auto
    with "1.prems" have "\<not> sublist str (tl s)" by (auto simp: sublist_Cons_right)
    from "1.IH"(2) [OF False np this] False np s show ?thesis
      by (subst removeStr.simps) simp
  qed
qed

lemma pathToRemove_nonempty: "pathToRemove url \<noteq> []"
  by (auto simp: pathToRemove_def Let_def endsWith_def)

lemma newSubFolderInfo_Some:
  assumes "newSubFolderInfo fm sizes ptr n i l = Inr (Some c)"
  shows "path c = removeStr ptr l" "splitSkipEmptyParts CHR ''/'' (path c) \<noteq> []"
    "name c = last (splitSkipEmptyParts CHR ''/'' (path c))" "pathIdx c = pathIdx n @ [i]"
    "subs c = []" "\<not> fetched c" "\<not> fetching c" "folder c = folder n"
    "sizeBytes c = sizeOf sizes l"
proof -
  from assms obtain seg segs a where
    "splitSkipEmptyParts CHR ''/'' (removeStr ptr l) = seg # segs"
    "c = SubFolderInfo (folder n) (last (seg # segs)) (removeStr ptr l) (pathIdx n @ [i])
           (subs SubFolderInfo0) (sizeOf sizes l) (fetched SubFolderInfo0)
           (fetching SubFolderInfo0) a"
    by (auto simp: newSubFolderInfo_def Let_def bindE_Inr_iff split: list.splits if_splits)
  then show "path c = removeStr ptr l" "splitSkipEmptyParts CHR ''/'' (path c) \<noteq> []"
    "name c = last (splitSkipEmptyParts CHR ''/'' (path c))" "pathIdx c = pathIdx n @ [i]"
    "subs c = []" "\<not> fetched c" "\<not> fetching c" "folder c = folder n"
    "sizeBytes c = sizeOf sizes l"
    by (simp_all add: SubFolderInfo0_def)
qed

lemma infoForIndex_Some:
  assumes "infoForIndex m idx = Inr (m', Some ip)"
  shows "ip = idx" "materialized m' idx" "folderMap m' = folderMap m" "jobs m' = jobs m"
    "dirty m' = dirty m" "signals m' = signals m" "scheduled m' = scheduled m"
proof -
  have "ip = idx \<and> materialized m' idx \<and> folderMap m' = folderMap m \<and> jobs m' = jobs m \<and>
    dirty m' = dirty m \<and> signals m' = signals m \<and> scheduled m' = scheduled m"
  proof (cases idx)
    case Nil
    with assms show ?thesis by (simp add: infoForIndex_def)
  next
    case (Cons r q)
    show ?thesis
    proof (cases q)
      case Nil
      with Cons assms show ?thesis
        by (auto simp: infoForIndex_def Let_def materialized_def initRoot_def nth_append
              split: if_splits)
    next
      case (Cons k q')
      with \<open>idx = r # q\<close> assms show ?thesis
        by (auto simp: infoForIndex_def materialized_def simp del: nodeAt.simps
              split: option.splits)
    qed
  qed
  then show "ip = idx" "materialized m' idx" "folderMap m' = folderMap m" "jobs m' = jobs m"
    "dirty m' = dirty m" "signals m' = signals m" "scheduled m' = scheduled m"
    by simp_all
qed



lemma ex_fetchMore: "fetchMore exModel [0] = Inr exFetching"
  by (simp add: fetchMore_def infoForIndex_def exModel_def exFolder_def exRoot_def
        exFetching_def SubFolderInfo0_def initRoot_def set_fetching_def Let_def)

lemma applyFolder_fields:
  "folders (applyFolder i m) = folders m" "dirty (applyFolder i m) = dirty m"
  "signals (applyFolder i m) = signals m" "jobs (applyFolder i m) = jobs m"
  "folderMap (applyFolder i m) = (folderMap m)[i := applyToFolder (folders m ! i) (folderMap m ! i)]"
  "scheduled (applyFolder i m) =
     scheduled m @ (if changesAt m i \<noteq> {} then [folderAlias (folderMap m ! i)] else [])"
  by (simp_all add: applyFolder_def Let_def changesAt_def)

lemma applyLoop_result:
  "folders (applyLoop i m) = folders m \<and> dirty (applyLoop i m) = dirty m \<and>
   signals (applyLoop i m) = signals m \<and> jobs (applyLoop i m) = jobs m \<and>
   length (folderMap (applyLoop i m)) = length (folderMap m) \<and>
   (\<forall>j<length (folderMap m).
      folderMap (applyLoop i m) ! j =
        (if i \<le> j \<and> projected m j then applyToFolder (folders m ! j) (folderMap m ! j)
         else folderMap m ! j)) \<and>
   scheduled (applyLoop i m) =
     scheduled m @ map (\<lambda>j. folderAlias (folderMap m ! j))
       (filter (\<lambda>j. projected m j \<and> changesAt m j \<noteq> {}) [i..<length (folderMap m)])"
proof (induction i m rule: applyLoop.induct)
  case (1 i m)
  consider (fin) "\<not> i < length (folderMap m)"
    | (brk) "i < length (folderMap m)" "length (folders m) \<le> i"
    | (cont) "i < length (folderMap m)" "i < length (folders m)" "\<not> fetched (folders m ! i)"
    | (app) "i < length (folderMap m)" "i < length (folders m)" "fetched (folders m ! i)"
    by fastforce
  then show ?case
  proof cases
    case fin
    then show ?thesis by (subst (1 2 3 4 5 6 7) applyLoop.simps) simp
  next
    case brk
    then have "filter (\<lambda>j. projected m j \<and> changesAt m j \<noteq> {}) [i..<length (folderMap m)] = []"
      by (auto simp: filter_empty_conv projected_def)
    with brk show ?thesis
      by (subst (1 2 3 4 5 6 7) applyLoop.simps) (auto simp: projected_def)
  next
    case cont
    then have eq: "applyLoop i m = applyLoop (Suc i) m"
      by (subst applyLoop.simps) simp
    from cont have np: "\<not> projected m i" by (simp add: projected_def)
    have "i \<le> j \<and> projected m j \<longleftrightarrow> Suc i \<le> j \<and> projected m j" for j
      using np by (cases "j = i") auto
    moreover have "filter (\<lambda>j. projected m j \<and> changesAt m j \<noteq> {}) [i..<length (folderMap m)]
        = filter (\<lambda>j. projected m j \<and> changesAt m j \<noteq> {}) [Suc i..<length (folderMap m)]"
      using cont(1) np by (simp add: upt_conv_Cons)
    ultimately show ?thesis
      using "1.IH"(1) cont by (simp add: eq)
  next
    case app
    define m1 where "m1 = applyFolder i m"
    from app have eq: "applyLoop i m = applyLoop (Suc i) m1"
      by (subst applyLoop.simps) (simp add: m1_def)
    note f = applyFolder_fields [of i m, folded m1_def]
    from app have pr: "projected m i" by (simp add: projected_def)
    have other: "folderMap m1 ! j = folderMap m ! j" if "j \<noteq> i" for j
      using that by (simp add: f)
    have proj: "projected m1 j = projected m j" for j
      by (simp add: projected_def f)
    have ch: "changesAt m1 j = changesAt m j" if "j \<noteq> i" for j
      using that by (simp add: changesAt_def f)
    from "1.IH"(2) app have IH:
      "folders (applyLoop (Suc i) m1) = folders m1 \<and> dirty (applyLoop (Suc i) m1) = dirty m1 \<and>
       signals (applyLoop (Suc i) m1) = signals m1 \<and> jobs (applyLoop (Suc i) m1) = jobs m1 \<and>
       length (folderMap (applyLoop (Suc i) m1)) = length (folderMap m1) \<and>
       (\<forall>j<length (folderMap m1).
          folderMap (applyLoop (Suc i) m1) ! j =
            (if Suc i \<le> j \<and> projected m1 j then applyToFolder (folders m1 ! j) (folderMap m1 ! j)
             else folderMap m1 ! j)) \<and>
       scheduled (applyLoop (Suc i) m1) =
         scheduled m1 @ map (\<lambda>j. folderAlias (folderMap m1 ! j))
           (filter (\<lambda>j. projected m1 j \<and> changesAt m1 j \<noteq> {}) [Suc i..<length (folderMap m1)])"
      by (simp add: m1_def)
    have len: "length (folderMap m1) = length (folderMap m)" by (simp add: f)
    have nth: "folderMap (applyLoop (Suc i) m1) ! j =
        (if i \<le> j \<and> projected m j then applyToFolder (folders m ! j) (folderMap m ! j)
         else folderMap m ! j)" if j: "j < length (folderMap m)" for j
    proof (cases "j = i")
      case True
      with IH j len pr app(1) show ?thesis by (simp add: f)
    next
      case False
      with IH j len other [OF False] proj show ?thesis by (auto simp: f(1))
    qed
    have tl: "map (\<lambda>j. folderAlias (folderMap m1 ! j))
           (filter (\<lambda>j. projected m1 j \<and> changesAt m1 j \<noteq> {}) [Suc i..<length (folderMap m)])
        = map (\<lambda>j. folderAlias (folderMap m ! j))
           (filter (\<lambda>j. projected m j \<and> changesAt m j \<noteq> {}) [Suc i..<length (folderMap m)])"
    proof -
      have "filter (\<lambda>j. projected m1 j \<and> changesAt m1 j \<noteq> {}) [Suc i..<length (folderMap m)]
          = filter (\<lambda>j. projected m j \<and> changesAt m j \<noteq> {}) [Suc i..<length (folderMap m)]"
        by (rule filter_cong) (auto simp: proj ch)
      moreover have "map (\<lambda>j. folderAlias (folderMap m1 ! j))
            (filter (\<lambda>j. projected m j \<and> changesAt m j \<noteq> {}) [Suc i..<length (folderMap m)])
          = map (\<lambda>j. folderAlias (folderMap m ! j))
            (filter (\<lambda>j. projected m j \<and> changesAt m j \<noteq> {}) [Suc i..<length (folderMap m)])"
        by (rule map_cong) (auto simp: other)
      ultimately show ?thesis by simp
    qed
    have sched: "scheduled (applyLoop (Suc i) m1) =
        scheduled m @ map (\<lambda>j. folderAlias (folderMap m ! j))
          (filter (\<lambda>j. projected m j \<and> changesAt m j \<noteq> {}) [i..<length (folderMap m)])"
      using IH len tl pr app(1) by (simp add: f(6) upt_conv_Cons)
    from IH len nth sched show ?thesis by (simp add: eq f)
  qed
qed

lemma ex_apply:
  "slotApplySelectiveSync exDirty =
     \<lparr>folderMap = [exFolder\<lparr>selectiveSyncBlackList := [''photos/2020/'', ''docs/''],
                    terminateSyncCalls := 1, avoidReadFromDb := {''docs/''}\<rparr>],
      scheduled = [''home''], folders = [], dirty = False, signals = [ModelReset], jobs = []\<rparr>"
  by (simp add: slotApplySelectiveSync_def resetFolders_def setAccount_def emit_def
        applyLoop.simps applyFolder_def applyToFolder_def changes_def exDirty_def exModel_def
        exFolder_def Let_def)

lemma addressedFrom_iff: "addressedFrom a n \<longleftrightarrow> pathIdx n = a \<and> addressedList a 0 (subs n)"
  by (cases n) simp

lemma addressedList_iff:
  "addressedList a i ss \<longleftrightarrow> (\<forall>k<length ss. addressedFrom (a @ [i + k]) (ss ! k))"
proof (induction ss arbitrary: i)
  case Nil
  then show ?case by simp
next
  case (Cons s ss)
  show ?case
  proof
    assume l: "addressedList a i (s # ss)"
    show "\<forall>k<length (s # ss). addressedFrom (a @ [i + k]) ((s # ss) ! k)"
    proof (intro allI impI)
      fix k assume "k < length (s # ss)"
      with l Cons.IH [of "Suc i"] show "addressedFrom (a @ [i + k]) ((s # ss) ! k)"
        by (cases k) auto
    qed
  next
    assume r: "\<forall>k<length (s # ss). addressedFrom (a @ [i + k]) ((s # ss) ! k)"
    then have "addressedFrom (a @ [i]) s" by auto
    moreover have "\<forall>k<length ss. addressedFrom (a @ [Suc i + k]) (ss ! k)"
      using r by (auto dest: spec [of _ "Suc k" for k])
    ultimately show "addressedList a i (s # ss)" using Cons.IH [of "Suc i"] by simp
  qed
qed

lemma rootsAddressed_iff:
  "rootsAddressed r fs \<longleftrightarrow>
     (\<forall>k<length fs. pathIdx (fs ! k) = [] \<and> subs (fs ! k) = [] \<or> addressedFrom [r + k] (fs ! k))"
proof (induction fs arbitrary: r)
  case Nil
  then show ?case by simp
next
  case (Cons s ss)
  show ?case
  proof
    assume l: "rootsAddressed r (s # ss)"
    show "\<forall>k<length (s # ss). pathIdx ((s # ss) ! k) = [] \<and> subs ((s # ss) ! k) = [] \<or>
        addressedFrom [r + k] ((s # ss) ! k)"
    proof (intro allI impI)
      fix k assume "k < length (s # ss)"
      with l Cons.IH [of "Suc r"] show "pathIdx ((s # ss) ! k) = [] \<and> subs ((s # ss) ! k) = [] \<or>
        addressedFrom [r + k] ((s # ss) ! k)"
        by (cases k) auto
    qed
  next
    assume a: "\<forall>k<length (s # ss). pathIdx ((s # ss) ! k) = [] \<and> subs ((s # ss) ! k) = [] \<or>
        addressedFrom [r + k] ((s # ss) ! k)"
    then have "pathIdx s = [] \<and> subs s = [] \<or> addressedFrom [r] s" by auto
    moreover have "\<forall>k<length ss. pathIdx (ss ! k) = [] \<and> subs (ss ! k) = [] \<or>
        addressedFrom [Suc r + k] (ss ! k)"
      using a by (auto dest: spec [of _ "Suc k" for k])
    ultimately show "rootsAddressed r (s # ss)" using Cons.IH [of "Suc r"] by simp
  qed
qed

lemma addressedList_nodeAt:
  "addressedList a 0 fs \<Longrightarrow> nodeAt fs q = Some n \<Longrightarrow> pathIdx n = a @ q"
proof (induction q arbitrary: a fs)
  case Nil
  then show ?case by simp
next
  case (Cons r q)
  from Cons.prems(2) have r: "r < length fs" by (auto split: if_splits)
  with Cons.prems(1) have ad: "addressedFrom (a @ [r]) (fs ! r)"
    by (auto simp: addressedList_iff)
  show ?case
  proof (cases "q = []")
    case True
    with Cons.prems(2) r ad show ?thesis by (auto simp: addressedFrom_iff)
  next
    case False
    with Cons.prems(2) r have "nodeAt (subs (fs ! r)) q = Some n" by simp
    with ad Cons.IH [of "a @ [r]" "subs (fs ! r)"] show ?thesis
      by (simp add: addressedFrom_iff)
  qed
qed

lemma wellAddressed_pathIdx:
  assumes "wellAddressed m" and "nodeAt (folders m) q = Some n" and "2 \<le> length q"
  shows "pathIdx n = q"
proof -
  from assms(3) obtain r k q' where q: "q = r # k # q'"
    by (cases q; cases "tl q") auto
  with assms(2) have r: "r < length (folders m)"
    and sub: "nodeAt (subs (folders m ! r)) (k # q') = Some n"
    by (auto split: if_splits)
  from sub have "subs (folders m ! r) \<noteq> []" by (auto split: if_splits)
  with assms(1) r have "addressedFrom [r] (folders m ! r)"
    by (auto simp: wellAddressed_def rootsAddressed_iff)
  then have "addressedList [r] 0 (subs (folders m ! r))" by (simp add: addressedFrom_iff)
  from addressedList_nodeAt [OF this sub] q show ?thesis by simp
qed

lemma nodeAt_butlast:
  "nodeAt fs q = Some n \<Longrightarrow> 2 \<le> length q \<Longrightarrow>
     \<exists>pn. nodeAt fs (butlast q) = Some pn \<and> last q < length (subs pn) \<and> subs pn ! last q = n"
proof (induction q arbitrary: fs)
  case Nil
  then show ?case by simp
next
  case (Cons r q)
  from Cons.prems have r: "r < length fs" and q: "q \<noteq> []"
    and sub: "nodeAt (subs (fs ! r)) q = Some n"
    by (auto split: if_splits)
  show ?case
  proof (cases "2 \<le> length q")
    case True
    then have "butlast q \<noteq> []" by (cases q; cases "tl q") auto
    with Cons.IH [OF sub True] r q show ?thesis by auto
  next
    case False
    with q obtain k where "q = [k]" by (cases q; cases "tl q") auto
    with sub r show ?thesis by (auto split: if_splits)
  qed
qed

lemma nodeAt_snoc:
  "nodeAt fs q = Some n \<Longrightarrow> nodeAt fs (q @ [k]) = (if k < length (subs n) then Some (subs n ! k) else None)"
proof (induction q arbitrary: fs)
  case Nil
  then show ?case by simp
next
  case (Cons r q)
  then show ?case by (cases "q = []") (auto split: if_splits)
qed

lemma set_subs_same [simp]: "set_subs (subs n) n = n"
  by (cases n) (simp add: set_subs_def)

lemma updateAt_comp: "updateAt g q (updateAt h q fs) = updateAt (\<lambda>n. g (h n)) q fs"
proof (induction q arbitrary: fs)
  case Nil
  then show ?case by simp
next
  case (Cons r q)
  then show ?case by (cases "q = []") auto
qed

lemma updateAt_cong:
  "nodeAt fs q = Some n \<Longrightarrow> f n = g n \<Longrightarrow> updateAt f q fs = updateAt g q fs"
proof (induction q arbitrary: fs)
  case Nil
  then show ?case by simp
next
  case (Cons r q)
  then show ?case by (cases "q = []") (auto split: if_splits)
qed

lemma updateAt_id: "nodeAt fs q = Some n \<Longrightarrow> f n = n \<Longrightarrow> updateAt f q fs = fs"
proof (induction q arbitrary: fs)
  case Nil
  then show ?case by simp
next
  case (Cons r q)
  show ?case
  proof (cases "q = []")
    case True
    with Cons.prems show ?thesis by (auto split: if_splits)
  next
    case False
    with Cons.prems have r: "r < length fs" and sub: "nodeAt (subs (fs ! r)) q = Some n"
      by (auto split: if_splits)
    from Cons.IH [OF sub Cons.prems(2)] False r show ?thesis by simp
  qed
qed

lemma updateAt_snoc:
  "q \<noteq> [] \<Longrightarrow>
     updateAt f (q @ [i]) fs = updateAt (\<lambda>n. set_subs (updateAt f [i] (subs n)) n) q fs"
proof (induction q arbitrary: fs)
  case Nil
  then show ?case by simp
next
  case (Cons r q)
  then show ?case by (cases "q = []") auto
qed

lemma nodeAt_updateAt:
  assumes "\<And>n. subs (f n) = subs n"
  shows "nodeAt (updateAt f p fs) q =
     (if q = p then map_option f (nodeAt fs q)
      else if prefix q p
        then map_option (\<lambda>n. set_subs (updateAt f (drop (length q) p) (subs n)) n) (nodeAt fs q)
      else nodeAt fs q)"
proof (induction q arbitrary: p fs)
  case Nil
  then show ?case by simp
next
  case (Cons s q)
  show ?case
  proof (cases p)
    case Nil
    then show ?thesis by simp
  next
    case (Cons r p')
    show ?thesis
    proof (cases "s = r \<and> r < length fs")
      case False
      with Cons show ?thesis by auto
    next
      case True
      then have s: "s = r" and r: "r < length fs" by auto
      show ?thesis
      proof (cases "q = []")
        case True
        with s r Cons show ?thesis by auto
      next
        case False
        show ?thesis
        proof (cases "p' = []")
          case True
          with s r Cons False assms show ?thesis by auto
        next
          case p': False
          from Cons.IH [of p' "subs (fs ! r)"] s r Cons False p' show ?thesis by auto
        qed
      qed
    qed
  qed
qed

lemma nodeAt_updateAt_None:
  assumes "\<And>n. subs (f n) = subs n"
  shows "nodeAt (updateAt f p fs) q = None \<longleftrightarrow> nodeAt fs q = None"
  by (simp add: nodeAt_updateAt [OF assms])

lemma checked_nodeAt_set_checked:
  "map_option checked (nodeAt (updateAt (set_checked v) p fs) q) =
     (if q = p then map_option (\<lambda>_. v) (nodeAt fs q) else map_option checked (nodeAt fs q))"
  by (simp add: nodeAt_updateAt option.map_comp comp_def)

lemma pathIdx_nodeAt_set_checked:
  "map_option pathIdx (nodeAt (updateAt (set_checked v) p fs) q) = map_option pathIdx (nodeAt fs q)"
  by (simp add: nodeAt_updateAt option.map_comp comp_def)

lemma length_subs_nodeAt_set_checked:
  "map_option (\<lambda>n. length (subs n)) (nodeAt (updateAt (set_checked v) p fs) q)
     = map_option (\<lambda>n. length (subs n)) (nodeAt fs q)"
  by (simp add: nodeAt_updateAt option.map_comp comp_def)

lemma nodeAt_updateAt_below:
  assumes "\<And>n. subs (f n) = subs n" and "\<not> prefix q p"
  shows "nodeAt (updateAt f p fs) q = nodeAt fs q"
  using assms(2) by (auto simp: nodeAt_updateAt [OF assms(1)])

lemma nodeAt_take:
  "nodeAt fs q = Some n \<Longrightarrow> 0 < i \<Longrightarrow> i < length q \<Longrightarrow>
     \<exists>n'. nodeAt fs (take i q) = Some n' \<and> q ! i < length (subs n')"
proof (induction q arbitrary: fs i)
  case Nil
  then show ?case by simp
next
  case (Cons r q)
  from Cons.prems have r: "r < length fs" and q: "q \<noteq> []"
    and sub: "nodeAt (subs (fs ! r)) q = Some n"
    by (auto split: if_splits)
  from Cons.prems(2) obtain j where i: "i = Suc j" by (cases i) auto
  show ?case
  proof (cases j)
    case 0
    with i r q sub show ?thesis by (cases q) (auto split: if_splits)
  next
    case (Suc j')
    with i Cons.prems(3) have "0 < j" "j < length q" by auto
    from Cons.IH [OF sub this] i r Suc show ?thesis by auto
  qed
qed

lemma walk_butlast:
  "nodeAt fs pIdx = Some n \<Longrightarrow> 0 < i \<Longrightarrow> i + 2 \<le> length pIdx \<Longrightarrow>
     walk fs pIdx i (take i pIdx) = Inr (butlast pIdx)"
proof (induction "length pIdx - i" arbitrary: i)
  case 0
  then show ?case by simp
next
  case (Suc d)
  show ?case
  proof (cases "i + 2 = length pIdx")
    case True
    then have "length pIdx - 1 = Suc i" "i < length pIdx" by simp_all
    then have "take i pIdx @ [pIdx ! i] = butlast pIdx"
      by (simp add: butlast_conv_take take_Suc_conv_app_nth [symmetric])
    with True show ?thesis by (subst walk.simps) simp
  next
    case False
    with Suc.prems have lt: "Suc i + 2 \<le> length pIdx" by simp
    from nodeAt_take [OF Suc.prems(1,2)] lt obtain n' where
      n': "nodeAt fs (take i pIdx) = Some n'" "pIdx ! i < length (subs n')" by auto
    from Suc.hyps(2) have "d = length pIdx - Suc i" by simp
    from Suc.hyps(1) [OF this Suc.prems(1) _ lt]
    have "walk fs pIdx (Suc i) (take (Suc i) pIdx) = Inr (butlast pIdx)" by simp
    with n' lt show ?thesis
      by (subst walk.simps) (simp add: take_Suc_conv_app_nth)
  qed
qed

lemma parent_wellAddressed:
  assumes "wellAddressed m" and "nodeAt (folders m) q = Some n" and "2 \<le> length q"
  shows "parent m q = Inr (butlast q)"
proof -
  from assms(3) obtain r k q' where q: "q = r # k # q'"
    by (cases q; cases "tl q") auto
  from wellAddressed_pathIdx [OF assms] have p: "pathIdx n = q" .
  from assms(2) q have r: "r < length (folders m)" by (auto split: if_splits)
  show ?thesis
  proof (cases "q' = []")
    case True
    with q p r assms(2) show ?thesis
      by (simp add: parent_def del: nodeAt.simps)
  next
    case False
    then have "1 + 2 \<le> length q" using q by (cases q') auto
    from walk_butlast [OF assms(2) _ this] q
    have "walk (folders m) q 1 [r] = Inr (butlast q)" by simp
    with q p r assms(2) False show ?thesis
      by (simp add: parent_def del: nodeAt.simps)
  qed
qed

lemma parent_root: "parent m [r] = Inr []"
  by (simp add: parent_def)

lemma materialized_parent:
  assumes "wellAddressed m" and "nodeAt (folders m) q = Some n" and "2 \<le> length q"
  shows "materialized m (butlast q)"
proof -
  from nodeAt_butlast [OF assms(2,3)] obtain pn where
    pn: "nodeAt (folders m) (butlast q) = Some pn" "last q < length (subs pn)" by auto
  show ?thesis
  proof (cases "length (butlast q) = 1")
    case False
    with pn show ?thesis by (simp add: materialized_def)
  next
    case True
    then obtain r where b: "butlast q = [r]" by (cases "butlast q") auto
    with pn have r: "r < length (folders m)" "pn = folders m ! r" by (auto split: if_splits)
    from pn(2) have "subs pn \<noteq> []" by auto
    with assms(1) r have "addressedFrom [r] pn" "r < length (folderMap m)"
      by (auto simp: wellAddressed_def rootsAddressed_iff)
    with pn b show ?thesis by (simp add: materialized_def addressedFrom_iff)
  qed
qed

lemma index_child:
  assumes "materialized m idx" and "nodeAt (folders m) idx = Some node" and "i < length (subs node)"
  shows "index m i idx = Inr (idx @ [i])"
proof (cases idx)
  case Nil
  with assms(2) show ?thesis by simp
next
  case (Cons r q)
  show ?thesis
  proof (cases q)
    case Nil
    with Cons assms show ?thesis
      by (auto simp: index_def materialized_def split: if_splits)
  next
    case (Cons k q')
    with \<open>idx = r # q\<close> have len: "2 \<le> length idx" by simp
    from nodeAt_butlast [OF assms(2) len] assms(3) Cons \<open>idx = r # q\<close> show ?thesis
      by (auto simp: index_def simp del: nodeAt.simps)
  qed
qed

lemma checkParent_mono:
  assumes "\<And>m i v r. F m i v = Inr r \<Longrightarrow> G m i v = Inr r"
    and "checkParent F v m idx = Inr r"
  shows "checkParent G v m idx = Inr r"
proof -
  from assms(2) obtain par m' pI where
    p: "parent m idx = Inr par" "infoForIndex m par = Inr (m', pI)"
    and rest: "(case pI of
         None \<Rightarrow> Inr m'
       | Some pp \<Rightarrow>
           (case nodeAt (folders m') pp of
              None \<Rightarrow> Inl NullPointer
            | Some pn \<Rightarrow>
                (case parentCall v pn of
                   None \<Rightarrow> Inr m'
                 | Some v' \<Rightarrow> F m' par v'))) = Inr r"
    by (auto simp: checkParent_def bindE_Inr_iff)
  from rest have "(case pI of
         None \<Rightarrow> Inr m'
       | Some pp \<Rightarrow>
           (case nodeAt (folders m') pp of
              None \<Rightarrow> Inl NullPointer
            | Some pn \<Rightarrow>
                (case parentCall v pn of
                   None \<Rightarrow> Inr m'
                 | Some v' \<Rightarrow> G m' par v'))) = Inr r"
    by (auto intro: assms(1) split: option.splits)
  with p show ?thesis by (simp add: checkParent_def)
qed

lemma setData_mono_Suc:
  "(setData n m idx v = Inr r \<longrightarrow> setData (Suc n) m idx v = Inr r) \<and>
   (setChildren n m idx info i v = Inr r \<longrightarrow> setChildren (Suc n) m idx info i v = Inr r)"
proof (induction n arbitrary: m idx v info i r)
  case 0
  then show ?case by (simp add: setData.simps setChildren.simps)
next
  case (Suc n)
  have sd: "setData n m i v = Inr r \<Longrightarrow> setData (Suc n) m i v = Inr r" for m i v r
    using Suc.IH by blast
  have sc: "setChildren n m idx info i v = Inr r \<Longrightarrow> setChildren (Suc n) m idx info i v = Inr r"
    for m idx info i v r
    using Suc.IH by blast
  have a: "setData (Suc (Suc n)) m idx v = Inr r" if h: "setData (Suc n) m idx v = Inr r"
  proof -
    from h obtain m0 info0 m1 where
      i0: "infoForIndex m idx = Inr (m0, info0)"
      and inner: "(case info0 of
              None \<Rightarrow> Inr m0
            | Some ip \<Rightarrow>
                (case nodeAt (folders m0) ip of
                   None \<Rightarrow> Inl NullPointer
                 | Some node \<Rightarrow>
                     if checked node = v then Inr m0
                     else
                       let m = m0\<lparr>folders := updateAt (set_checked v) ip (folders m0)\<rparr> in
                       bindE (checkParent (setData n) v m idx) (\<lambda>m.
                         if v = PartiallyChecked then Inr m
                         else setChildren n m idx ip 0 v))) = Inr m1"
      and r: "r = emit [DirtyChanged, DataChanged idx] (m1\<lparr>dirty := True\<rparr>)"
      by (auto simp: setData.simps bindE_Inr_iff)
    have "(case info0 of
              None \<Rightarrow> Inr m0
            | Some ip \<Rightarrow>
                (case nodeAt (folders m0) ip of
                   None \<Rightarrow> Inl NullPointer
                 | Some node \<Rightarrow>
                     if checked node = v then Inr m0
                     else
                       let m = m0\<lparr>folders := updateAt (set_checked v) ip (folders m0)\<rparr> in
                       bindE (checkParent (setData (Suc n)) v m idx) (\<lambda>m.
                         if v = PartiallyChecked then Inr m
                         else setChildren (Suc n) m idx ip 0 v))) = Inr m1"
      using inner
      by (auto simp: bindE_Inr_iff Let_def intro: sc checkParent_mono [of "setData n", OF sd]
            split: option.splits if_splits)
    with i0 r show ?thesis by (simp add: setData.simps(2) [of "Suc n"])
  qed
  have b: "setChildren (Suc (Suc n)) m idx info i v = Inr r"
    if h: "setChildren (Suc n) m idx info i v = Inr r"
    using h
    by (subst setChildren.simps, subst (asm) setChildren.simps)
       (auto simp: bindE_Inr_iff intro: sc sd split: option.splits if_splits)
  from a b show ?case by blast
qed

lemma setData_mono: "setData n m idx v = Inr r \<Longrightarrow> n \<le> k \<Longrightarrow> setData k m idx v = Inr r"
  by (induction k) (auto simp: le_Suc_eq setData_mono_Suc)

lemma setChildren_mono:
  "setChildren n m idx info i v = Inr r \<Longrightarrow> n \<le> k \<Longrightarrow> setChildren k m idx info i v = Inr r"
  by (induction k) (auto simp: le_Suc_eq setData_mono_Suc)

lemma runs_same:
  assumes "materialized m idx" and "nodeAt (folders m) idx = Some node" and "checked node = v"
  shows "setData (Suc n) m idx v = Inr (changed m idx)"
  using assms(2,3)
  by (simp add: setData.simps infoForIndex_materialized [OF assms(1)] changed_def)

lemma runs_change:
  assumes "materialized m idx" and "nodeAt (folders m) idx = Some node" and "checked node \<noteq> v"
    and "checkParent (setData n1) v (m\<lparr>folders := updateAt (set_checked v) idx (folders m)\<rparr>) idx
           = Inr m2"
    and "if v = PartiallyChecked then m3 = m2 else runsChildren m2 idx 0 v m3"
  shows "runs m idx v (changed m3 idx)"
proof -
  from assms(5) obtain n2 where
    n2: "v \<noteq> PartiallyChecked \<Longrightarrow> setChildren n2 m2 idx idx 0 v = Inr m3"
    and p: "v = PartiallyChecked \<Longrightarrow> m3 = m2"
    by (auto simp: runsChildren_def split: if_splits)
  define N where "N = max n1 n2"
  have cp: "checkParent (setData N) v (m\<lparr>folders := updateAt (set_checked v) idx (folders m)\<rparr>) idx
           = Inr m2"
    by (rule checkParent_mono [OF _ assms(4)]) (auto intro: setData_mono simp: N_def)
  have ch: "v \<noteq> PartiallyChecked \<Longrightarrow> setChildren N m2 idx idx 0 v = Inr m3"
    by (rule setChildren_mono [OF n2]) (auto simp: N_def)
  have "setData (Suc N) m idx v = Inr (changed m3 idx)"
    using assms(2,3) cp ch p
    by (simp add: setData.simps infoForIndex_materialized [OF assms(1)] changed_def Let_def)
  then show ?thesis by (auto simp: runs_def)
qed

lemma checkParent_root: "checkParent F v m [r] = Inr m"
  by (simp add: checkParent_def parent_root infoForIndex_def)

lemma checkParent_sub:
  assumes "wellAddressed m" and "nodeAt (folders m) idx = Some node" and "2 \<le> length idx"
    and "nodeAt (folders m) (butlast idx) = Some pn"
  shows "checkParent F v m idx =
     (case parentCall v pn of None \<Rightarrow> Inr m | Some v' \<Rightarrow> F m (butlast idx) v')"
  using assms(4)
  by (simp add: checkParent_def parent_wellAddressed [OF assms(1-3)]
        infoForIndex_materialized [OF materialized_parent [OF assms(1-3)]])

lemma runsChildren_end:
  "nodeAt (folders m) idx = Some node \<Longrightarrow> length (subs node) \<le> i \<Longrightarrow> runsChildren m idx i v m"
  by (auto simp: runsChildren_def setChildren.simps intro!: exI [of _ "Suc 0"])

lemma runsChildren_skip:
  assumes "nodeAt (folders m) idx = Some node" and "i < length (subs node)"
    and "checked (subs node ! i) = v" and "runsChildren m idx (Suc i) v m'"
  shows "runsChildren m idx i v m'"
proof -
  from assms(4) obtain n where "setChildren n m idx idx (Suc i) v = Inr m'"
    by (auto simp: runsChildren_def)
  with assms(1-3) have "setChildren (Suc n) m idx idx i v = Inr m'"
    by (simp add: setChildren.simps)
  then show ?thesis by (auto simp: runsChildren_def)
qed

lemma runsChildren_call:
  assumes "materialized m idx" and "nodeAt (folders m) idx = Some node" and "i < length (subs node)"
    and "checked (subs node ! i) \<noteq> v" and "runs m (idx @ [i]) v m1"
    and "runsChildren m1 idx (Suc i) v m'"
  shows "runsChildren m idx i v m'"
proof -
  from assms(5) obtain n1 where n1: "setData n1 m (idx @ [i]) v = Inr m1"
    by (auto simp: runs_def)
  from assms(6) obtain n2 where n2: "setChildren n2 m1 idx idx (Suc i) v = Inr m'"
    by (auto simp: runsChildren_def)
  define N where "N = max n1 n2"
  have a: "setData N m (idx @ [i]) v = Inr m1"
    by (rule setData_mono [OF n1]) (simp add: N_def)
  have b: "setChildren N m1 idx idx (Suc i) v = Inr m'"
    by (rule setChildren_mono [OF n2]) (simp add: N_def)
  from assms(2-4) a b have "setChildren (Suc N) m idx idx i v = Inr m'"
    by (simp add: setChildren.simps index_child [OF assms(1-3)])
  then show ?thesis by (auto simp: runsChildren_def)
qed

lemma runsChildren_none:
  assumes "nodeAt (folders m) idx = Some node" and "\<forall>k<length (subs node). i \<le> k \<longrightarrow> checked (subs node ! k) = v"
  shows "runsChildren m idx i v m"
  using assms(2)
proof (induction "length (subs node) - i" arbitrary: i)
  case 0
  then show ?case using assms(1) by (auto intro: runsChildren_end)
next
  case (Suc d)
  then have i: "i < length (subs node)" by simp
  with Suc.prems have c: "checked (subs node ! i) = v" by simp
  from Suc.hyps(2) have "d = length (subs node) - Suc i" by simp
  from Suc.hyps(1) [OF this] Suc.prems have "runsChildren m idx (Suc i) v m" by simp
  from runsChildren_skip [OF assms(1) i c this] show ?case .
qed

lemma cascade_sel [simp]:
  "folder (cascade v n) = folder n" "name (cascade v n) = name n" "path (cascade v n) = path n"
  "pathIdx (cascade v n) = pathIdx n" "sizeBytes (cascade v n) = sizeBytes n"
  "fetched (cascade v n) = fetched n" "fetching (cascade v n) = fetching n"
  "checked (cascade v n) = v" "subs (cascade v n) = map (cascadeIf v) (subs n)"
  by (cases n; simp add: cascadeIf_def)+

lemma cascade_eq: "cascade v n = set_subs (map (cascadeIf v) (subs n)) (set_checked v n)"
  by (cases n) (simp add: set_subs_def set_checked_def cascadeIf_def)

lemma downSignals_eq:
  "downSignals v c n = downSignalsFrom v c 0 (subs n) @ [DirtyChanged, DataChanged c]"
  by (cases n) simp

lemma addressedFrom_set_checked: "addressedFrom a n \<Longrightarrow> addressedFrom a (set_checked v n)"
  by (simp add: addressedFrom_iff)

lemma addressedFrom_cascade: "addressedFrom a n \<Longrightarrow> addressedFrom a (cascade v n)"
proof (induction n arbitrary: a)
  case (SubFolderInfo f nm p pi ss sz fe fg c)
  have "addressedFrom (a @ [0 + k])
      (map (\<lambda>s. if checked s \<noteq> v then cascade v s else s) ss ! k)" if k: "k < length ss" for k
  proof -
    from SubFolderInfo.prems k have "addressedFrom (a @ [0 + k]) (ss ! k)"
      by (simp add: addressedList_iff)
    with SubFolderInfo.IH [of "ss ! k" "a @ [0 + k]"] k show ?thesis by simp
  qed
  then have "addressedList a 0 (map (\<lambda>s. if checked s \<noteq> v then cascade v s else s) ss)"
    by (subst addressedList_iff) simp
  with SubFolderInfo.prems show ?case by simp
qed

lemma addressedList_updateAt:
  assumes "\<And>b n. addressedFrom b n \<Longrightarrow> addressedFrom b (f n)"
  shows "addressedList a i fs \<Longrightarrow> addressedList a i (updateAt f q fs)"
proof (induction q arbitrary: a i fs)
  case Nil
  then show ?case by simp
next
  case (Cons r q)
  show ?case
  proof (cases "r < length fs")
    case False
    with Cons.prems show ?thesis by simp
  next
    case True
    from Cons.prems True have ad: "addressedFrom (a @ [i + r]) (fs ! r)"
      by (simp add: addressedList_iff)
    have new: "addressedFrom (a @ [i + r])
        (if q = [] then f (fs ! r) else set_subs (updateAt f q (subs (fs ! r))) (fs ! r))"
    proof (cases "q = []")
      case True
      with ad assms show ?thesis by simp
    next
      case False
      from ad have "addressedList (a @ [i + r]) 0 (subs (fs ! r))"
        by (simp add: addressedFrom_iff)
      from Cons.IH [OF this] ad False show ?thesis by (simp add: addressedFrom_iff)
    qed
    have "addressedFrom (a @ [i + k]) (updateAt f (r # q) fs ! k)" if "k < length fs" for k
      using that Cons.prems True new
      by (cases "k = r") (auto simp: addressedList_iff)
    then show ?thesis by (subst addressedList_iff) (simp del: updateAt.simps)
  qed
qed

lemma wellAddressed_updateAt:
  assumes "\<And>b n. addressedFrom b n \<Longrightarrow> addressedFrom b (f n)"
    and "\<And>n. pathIdx (f n) = pathIdx n" and "\<And>n. subs n = [] \<Longrightarrow> subs (f n) = []"
    and "wellAddressed m" and "folders m' = updateAt f q (folders m)"
    and "folderMap m' = folderMap m"
  shows "wellAddressed m'"
proof (cases q)
  case Nil
  with assms(4-6) show ?thesis by (simp add: wellAddressed_def)
next
  case (Cons r q')
  show ?thesis
  proof (cases "r < length (folders m)")
    case False
    with Cons assms(4-6) show ?thesis by (simp add: wellAddressed_def)
  next
    case True
    let ?n = "folders m ! r"
    from assms(4) True have old: "pathIdx ?n = [] \<and> subs ?n = [] \<or> addressedFrom [r] ?n"
      by (auto simp: wellAddressed_def rootsAddressed_iff)
    have new: "pathIdx (folders m' ! r) = [] \<and> subs (folders m' ! r) = [] \<or>
        addressedFrom [r] (folders m' ! r)"
    proof (cases "q' = []")
      case True
      with old Cons \<open>r < length (folders m)\<close> assms(1-3,5) show ?thesis by auto
    next
      case False
      show ?thesis
      proof (cases "subs ?n = []")
        case True
        then have "updateAt f q' (subs ?n) = []" by (cases q') auto
        with old True False Cons \<open>r < length (folders m)\<close> assms(5) show ?thesis
          by (auto simp: addressedFrom_iff)
      next
        case ne: False
        with old have "addressedFrom [r] ?n" by auto
        then have "pathIdx ?n = [r]" "addressedList [r] 0 (subs ?n)"
          by (simp_all add: addressedFrom_iff)
        with addressedList_updateAt [where f = f and a = "[r]" and i = 0 and fs = "subs ?n"
            and q = q', OF assms(1)]
          False Cons \<open>r < length (folders m)\<close> assms(5)
        show ?thesis by (simp add: addressedFrom_iff)
      qed
    qed
    have "pathIdx (folders m' ! k) = [] \<and> subs (folders m' ! k) = [] \<or>
        addressedFrom [0 + k] (folders m' ! k)" if k: "k < length (folders m')" for k
    proof (cases "k = r")
      case True
      with new show ?thesis by simp
    next
      case False
      from k assms(5) have k': "k < length (folders m)" by simp
      from False Cons assms(5) \<open>r < length (folders m)\<close>
      have "folders m' ! k = folders m ! k" by simp
      with k' assms(4) show ?thesis
        by (auto simp: wellAddressed_def rootsAddressed_iff)
    qed
    then have "rootsAddressed 0 (folders m')" by (subst rootsAddressed_iff) simp
    with assms(4-6) show ?thesis by (simp add: wellAddressed_def)
  qed
qed

lemma wellAddressed_set_checked:
  "wellAddressed m \<Longrightarrow> wellAddressed (m\<lparr>folders := updateAt (set_checked v) q (folders m)\<rparr>)"
  by (rule wellAddressed_updateAt [where f = "set_checked v" and m = m and q = q])
     (simp_all add: addressedFrom_set_checked)

lemma wellAddressed_cascade:
  "wellAddressed m \<Longrightarrow> folders m' = updateAt (cascade v) q (folders m) \<Longrightarrow>
     folderMap m' = folderMap m \<Longrightarrow> wellAddressed m'"
  by (rule wellAddressed_updateAt [where f = "cascade v" and m = m and q = q])
     (simp_all add: addressedFrom_cascade)

lemma materialized_cong:
  assumes "materialized m idx" and "nodeAt (folders m) idx = Some n"
    and "nodeAt (folders m') idx = Some n'" and "pathIdx n' = pathIdx n"
    and "folderMap m' = folderMap m"
  shows "materialized m' idx"
  using assms by (auto simp: materialized_def)

lemma materialized_sub:
  "nodeAt (folders m) idx = Some n \<Longrightarrow> 2 \<le> length idx \<Longrightarrow> materialized m idx"
  by (auto simp: materialized_def)

lemma cascadeFrom_skip:
  "i < length (subs n) \<Longrightarrow> checked (subs n ! i) = v \<Longrightarrow> cascadeFrom v i n = cascadeFrom v (Suc i) n"
  by (simp add: cascadeFrom_def cascadeIf_def take_Suc_conv_app_nth
        Cons_nth_drop_Suc [symmetric])

lemma cascadeFrom_step:
  "i < length (subs n) \<Longrightarrow> checked (subs n ! i) \<noteq> v \<Longrightarrow>
     cascadeFrom v (Suc i) (set_subs ((subs n)[i := cascade v (subs n ! i)]) n) = cascadeFrom v i n"
  by (simp add: cascadeFrom_def cascadeIf_def take_Suc_conv_app_nth
        Cons_nth_drop_Suc [symmetric])

lemma cascadeFrom_end: "length (subs n) \<le> i \<Longrightarrow> cascadeFrom v i n = n"
  by (simp add: cascadeFrom_def)

lemma downSignals_nonempty: "downSignals v c n \<noteq> []"
  by (simp add: downSignals_eq)

lemma loop_gen:
  assumes v: "v \<noteq> PartiallyChecked"
  shows "(\<forall>k<length (subs node). i \<le> k \<longrightarrow> downOK v (idx @ [k]) (subs node ! k)) \<Longrightarrow>
     wellAddressed m \<Longrightarrow> materialized m idx \<Longrightarrow> nodeAt (folders m) idx = Some node \<Longrightarrow>
     checked node = v \<Longrightarrow> i \<le> length (subs node) \<Longrightarrow>
     runsChildren m idx i v (loopResult v idx i node m)"
proof (induction "length (subs node) - i" arbitrary: i m node)
  case 0
  then have len: "length (subs node) \<le> i" by simp
  have "loopResult v idx i node m = m"
    using len updateAt_id [where f = "cascadeFrom v i", OF "0.prems"(4) cascadeFrom_end [OF len]]
    by (simp add: loopResult_def)
  with runsChildren_end [OF "0.prems"(4) len] show ?case by simp
next
  case (Suc d)
  then have i: "i < length (subs node)" by simp
  let ?c = "subs node ! i"
  from Suc.hyps(2) have d: "d = length (subs node) - Suc i" by simp
  have dr: "drop i (subs node) = ?c # drop (Suc i) (subs node)"
    using i by (simp add: Cons_nth_drop_Suc)
  show ?case
  proof (cases "checked ?c = v")
    case True
    from Suc.prems(1) have "\<forall>k<length (subs node). Suc i \<le> k \<longrightarrow> downOK v (idx @ [k]) (subs node ! k)"
      by simp
    from Suc.hyps(1) [OF d this Suc.prems(2-5)] i
    have "runsChildren m idx (Suc i) v (loopResult v idx (Suc i) node m)" by simp
    moreover have "loopResult v idx (Suc i) node m = loopResult v idx i node m"
      using True dr
        updateAt_cong [where f = "cascadeFrom v i" and g = "cascadeFrom v (Suc i)",
          OF Suc.prems(4) cascadeFrom_skip [OF i True]]
      by (simp add: loopResult_def)
    ultimately show ?thesis
      using runsChildren_skip [OF Suc.prems(4) i True] by simp
  next
    case False
    from Suc.prems(4) have ne: "idx \<noteq> []" by auto
    have child: "nodeAt (folders m) (idx @ [i]) = Some ?c"
      using nodeAt_snoc [OF Suc.prems(4)] i by simp
    define m1 where "m1 = downResult v (idx @ [i]) ?c m"
    from Suc.prems(1) i have "downOK v (idx @ [i]) ?c" by simp
    moreover have "wellAddressed m \<and> nodeAt (folders m) (idx @ [i]) = Some ?c \<and>
        checked ?c \<noteq> v \<and> 2 \<le> length (idx @ [i]) \<and>
        map_option checked (nodeAt (folders m) (butlast (idx @ [i]))) = Some v"
      using Suc.prems(2,4,5) child False ne by (cases idx) simp_all
    ultimately have run: "runs m (idx @ [i]) v m1"
      unfolding downOK_def m1_def by blast
    let ?node1 = "set_subs ((subs node)[i := cascade v ?c]) node"
    have f1: "folders m1 =
        updateAt (\<lambda>n. set_subs (updateAt (cascade v) [i] (subs n)) n) idx (folders m)"
      using ne by (simp add: m1_def downResult_def updateAt_snoc)
    have node1: "nodeAt (folders m1) idx = Some ?node1"
      using nodeAt_updateAt_same [OF Suc.prems(4)] i by (simp add: f1)
    have wa1: "wellAddressed m1"
      by (rule wellAddressed_cascade [OF Suc.prems(2)]) (simp_all add: m1_def downResult_def)
    have mat1: "materialized m1 idx"
      by (rule materialized_cong [OF Suc.prems(3,4) node1]) (simp_all add: m1_def downResult_def)
    have hyp1: "\<forall>k<length (subs ?node1). Suc i \<le> k \<longrightarrow> downOK v (idx @ [k]) (subs ?node1 ! k)"
      using Suc.prems(1) by simp
    have "runsChildren m1 idx (Suc i) v (loopResult v idx (Suc i) ?node1 m1)"
      by (rule Suc.hyps(1) [OF _ hyp1 wa1 mat1 node1])
         (use d i Suc.prems(5) in simp_all)
    moreover have "loopResult v idx (Suc i) ?node1 m1 = loopResult v idx i node m"
    proof -
      have "updateAt (cascadeFrom v (Suc i)) idx (folders m1) =
          updateAt (\<lambda>n. cascadeFrom v (Suc i) (set_subs (updateAt (cascade v) [i] (subs n)) n)) idx
            (folders m)"
        by (simp add: f1 updateAt_comp)
      also have "\<dots> = updateAt (cascadeFrom v i) idx (folders m)"
        by (rule updateAt_cong [OF Suc.prems(4)]) (use i False cascadeFrom_step in simp)
      finally show ?thesis
        using dr False i
        by (simp add: loopResult_def m1_def downResult_def downSignals_nonempty)
    qed
    ultimately show ?thesis
      using runsChildren_call [OF Suc.prems(3,4) i False run] by simp
  qed
qed

lemma parentCall_same:
  "v \<noteq> PartiallyChecked \<Longrightarrow> checked pn = v \<Longrightarrow> parentCall v pn = None"
  by (cases v) (simp_all add: parentCall_def)

lemma down: "v \<noteq> PartiallyChecked \<Longrightarrow> downOK v c node"
proof (induction node arbitrary: c)
  case (SubFolderInfo f nm p pi ss sz fe fg st)
  let ?node = "SubFolderInfo f nm p pi ss sz fe fg st"
  note v = SubFolderInfo.prems
  show ?case
    unfolding downOK_def
  proof (intro allI impI, elim conjE)
    fix m
    assume wa: "wellAddressed m" and node: "nodeAt (folders m) c = Some ?node"
      and ch: "checked ?node \<noteq> v" and len: "2 \<le> length c"
      and par: "map_option checked (nodeAt (folders m) (butlast c)) = Some v"
    define m1 where "m1 = m\<lparr>folders := updateAt (set_checked v) c (folders m)\<rparr>"
    have wa1: "wellAddressed m1" unfolding m1_def by (rule wellAddressed_set_checked [OF wa])
    have node1: "nodeAt (folders m1) c = Some (set_checked v ?node)"
      using nodeAt_updateAt_same [OF node] by (simp add: m1_def)
    from len have neq: "butlast c \<noteq> c" by (cases c rule: rev_cases) auto
    have "map_option checked (nodeAt (folders m1) (butlast c)) = Some v"
      using par neq by (simp add: m1_def checked_nodeAt_set_checked)
    then obtain pn1 where pn1: "nodeAt (folders m1) (butlast c) = Some pn1" "checked pn1 = v"
      by auto
    have cp: "checkParent (setData 0) v m1 c = Inr m1"
      using parentCall_same [OF v pn1(2)]
      by (simp add: checkParent_sub [OF wa1 node1 len pn1(1)])
    have mat1: "materialized m1 c" by (rule materialized_sub [OF node1 len])
    have hyp: "\<forall>k<length (subs (set_checked v ?node)). 0 \<le> k \<longrightarrow>
        downOK v (c @ [k]) (subs (set_checked v ?node) ! k)"
      using SubFolderInfo.IH [OF _ v] by simp
    have loop: "runsChildren m1 c 0 v (loopResult v c 0 (set_checked v ?node) m1)"
      by (rule loop_gen [OF v hyp wa1 mat1 node1]) simp_all
    have "runs m c v (changed (loopResult v c 0 (set_checked v ?node) m1) c)"
      by (rule runs_change [OF materialized_sub [OF node len] node ch cp [unfolded m1_def]])
         (use v loop in \<open>simp add: m1_def\<close>)
    moreover have "changed (loopResult v c 0 (set_checked v ?node) m1) c = downResult v c ?node m"
    proof -
      have "updateAt (cascadeFrom v 0) c (folders m1) =
          updateAt (\<lambda>n. cascadeFrom v 0 (set_checked v n)) c (folders m)"
        by (simp add: m1_def updateAt_comp)
      also have "\<dots> = updateAt (cascade v) c (folders m)"
        by (rule updateAt_cong [OF node]) (simp add: cascadeFrom_def cascade_eq)
      finally show ?thesis
        by (simp add: changed_def loopResult_def downResult_def emit_def m1_def)
    qed
    ultimately show "runs m c v (downResult v c ?node m)" by simp
  qed
qed

lemma loop:
  assumes "v \<noteq> PartiallyChecked" and "wellAddressed m" and "materialized m idx"
    and "nodeAt (folders m) idx = Some node" and "checked node = v"
  shows "runsChildren m idx 0 v (loopResult v idx 0 node m)"
  by (rule loop_gen [OF assms(1) _ assms(2-5)]) (simp_all add: down [OF assms(1)])

lemma changed_fields [simp]:
  "folders (changed m idx) = folders m" "folderMap (changed m idx) = folderMap m"
  "dirty (changed m idx)" "signals (changed m idx) = signals m @ [DirtyChanged, DataChanged idx]"
  "jobs (changed m idx) = jobs m" "scheduled (changed m idx) = scheduled m"
  by (simp_all add: changed_def emit_def)

lemma wellAddressed_changed [simp]: "wellAddressed (changed m idx) = wellAddressed m"
  by (simp add: wellAddressed_def)

lemma up_folderMap: "folderMap (up v m p) = folderMap m"
proof (induction v m p rule: up.induct)
  case (1 v m p)
  show ?case
    by (subst up.simps) (auto simp: Let_def "1.IH" split: option.splits)
qed

lemma up_wellAddressed: "wellAddressed m \<Longrightarrow> wellAddressed (up v m p)"
proof (induction v m p rule: up.induct)
  case (1 v m p)
  show ?case
    by (subst up.simps)
       (auto simp: Let_def intro!: "1.IH" wellAddressed_set_checked [OF "1.prems"]
          split: option.splits)
qed

lemma up_frame:
  "\<not> strict_prefix q p \<Longrightarrow>
     nodeAt (folders (up v m p)) q = nodeAt (updateAt (set_checked v) p (folders m)) q"
proof (induction v m p rule: up.induct)
  case (1 v m p)
  define m1 where "m1 = m\<lparr>folders := updateAt (set_checked v) p (folders m)\<rparr>"
  show ?case
  proof (cases "2 \<le> length p \<and> (\<exists>pn v'. nodeAt (folders m1) (butlast p) = Some pn \<and>
      parentCall v pn = Some v')")
    case False
    then have "up v m p = m1"
      by (subst up.simps) (auto simp: Let_def m1_def split: option.splits)
    then show ?thesis by (simp add: m1_def)
  next
    case True
    then obtain pn v' where len: "2 \<le> length p"
      and pn: "nodeAt (folders m1) (butlast p) = Some pn" "parentCall v pn = Some v'"
      by auto
    then have eq: "up v m p = changed (up v' m1 (butlast p)) (butlast p)"
      by (subst up.simps) (simp add: Let_def m1_def)
    from len have sp: "strict_prefix (butlast p) p"
      by (cases p rule: rev_cases) (auto simp: strict_prefix_def)
    with "1.prems" have a: "\<not> strict_prefix q (butlast p)" and b: "\<not> prefix q (butlast p)"
      by (auto simp: strict_prefix_def dest: prefix_order.trans)
    from "1.IH" [OF refl len pn [unfolded m1_def] a, folded m1_def]
    have "nodeAt (folders (up v' m1 (butlast p))) q =
        nodeAt (updateAt (set_checked v') (butlast p) (folders m1)) q" .
    also have "\<dots> = nodeAt (folders m1) q"
      by (rule nodeAt_updateAt_below [OF _ b]) simp
    finally show ?thesis by (simp add: eq m1_def)
  qed
qed

lemma parentCall_Some:
  "parentCall v pn = Some v' \<Longrightarrow>
     checked pn \<noteq> v' \<and> (v' = PartiallyChecked \<or> v' = Checked \<and> \<not> hasUnchecked pn)"
  by (cases v; cases "checked pn") (auto simp: parentCall_def split: if_splits)

lemma hasUnchecked_iff:
  "hasUnchecked n \<longleftrightarrow> (\<exists>k<length (subs n). checked (subs n ! k) \<noteq> Checked)"
  unfolding hasUnchecked_def list_ex_iff by (metis in_set_conv_nth)

lemma up_checkParent:
  "wellAddressed m \<Longrightarrow> materialized m p \<Longrightarrow> nodeAt (folders m) p = Some node \<Longrightarrow>
     checked node \<noteq> v \<Longrightarrow>
     \<exists>n. checkParent (setData n) v (m\<lparr>folders := updateAt (set_checked v) p (folders m)\<rparr>) p
        = Inr (up v m p)"
proof (induction v m p arbitrary: node rule: up.induct)
  case (1 v m p)
  define m1 where "m1 = m\<lparr>folders := updateAt (set_checked v) p (folders m)\<rparr>"
  have wa1: "wellAddressed m1" unfolding m1_def by (rule wellAddressed_set_checked [OF "1.prems"(1)])
  have node1: "nodeAt (folders m1) p = Some (set_checked v node)"
    using nodeAt_updateAt_same [OF "1.prems"(3)] by (simp add: m1_def)
  show ?case
  proof (cases "2 \<le> length p")
    case False
    with "1.prems"(3) obtain r where p: "p = [r]" by (cases p; cases "tl p") auto
    have "up v m p = m1" using False by (subst up.simps) (simp add: Let_def m1_def)
    with p show ?thesis by (simp add: checkParent_root m1_def)
  next
    case True
    from nodeAt_butlast [OF node1 True] obtain pn where
      pn: "nodeAt (folders m1) (butlast p) = Some pn" by auto
    note cp = checkParent_sub [OF wa1 node1 True pn]
    show ?thesis
    proof (cases "parentCall v pn")
      case None
      with pn True have "up v m p = m1" by (subst up.simps) (simp add: Let_def m1_def)
      with None cp show ?thesis by (simp add: m1_def)
    next
      case (Some v')
      with pn True have eq: "up v m p = changed (up v' m1 (butlast p)) (butlast p)"
        by (subst up.simps) (simp add: Let_def m1_def)
      note pc = parentCall_Some [OF Some]
      have matp: "materialized m1 (butlast p)"
        by (rule materialized_parent [OF wa1 node1 True])
      from "1.IH" [OF refl True pn [unfolded m1_def] Some
          wa1 [unfolded m1_def] matp [unfolded m1_def] pn [unfolded m1_def], folded m1_def] pc
      obtain n1 where n1: "checkParent (setData n1) v'
          (m1\<lparr>folders := updateAt (set_checked v') (butlast p) (folders m1)\<rparr>) (butlast p)
          = Inr (up v' m1 (butlast p))"
        by auto
      have "runs m1 (butlast p) v' (changed (up v' m1 (butlast p)) (butlast p))"
      proof (rule runs_change [OF matp pn _ n1])
        show "checked pn \<noteq> v'" using pc by simp
        show "if v' = PartiallyChecked then up v' m1 (butlast p) = up v' m1 (butlast p)
          else runsChildren (up v' m1 (butlast p)) (butlast p) 0 v' (up v' m1 (butlast p))"
        proof (cases "v' = PartiallyChecked")
          case True
          then show ?thesis by simp
        next
          case False
          with pc have v': "v' = Checked" and all: "\<not> hasUnchecked pn" by auto
          have "nodeAt (folders (up v' m1 (butlast p))) (butlast p) = Some (set_checked v' pn)"
            using nodeAt_updateAt_same [OF pn] by (simp add: up_frame)
          from runsChildren_none [OF this, of 0 v'] all v' False show ?thesis
            by (auto simp: hasUnchecked_iff)
        qed
      qed
      then obtain n where "setData n m1 (butlast p) v' = Inr (up v m p)"
        by (auto simp: runs_def eq)
      with Some cp show ?thesis by (auto simp: m1_def)
    qed
  qed
qed

lemma setData_runs:
  assumes "wellAddressed m" and "materialized m idx" and "nodeAt (folders m) idx = Some node"
    and "checked node \<noteq> v"
  shows "runs m idx v (setDataResult v m idx node)"
proof -
  from up_checkParent [OF assms] obtain n1 where
    n1: "checkParent (setData n1) v (m\<lparr>folders := updateAt (set_checked v) idx (folders m)\<rparr>) idx
        = Inr (up v m idx)" by auto
  have node2: "nodeAt (folders (up v m idx)) idx = Some (set_checked v node)"
    using nodeAt_updateAt_same [OF assms(3)] by (simp add: up_frame)
  have mat2: "materialized (up v m idx) idx"
    by (rule materialized_cong [OF assms(2,3) node2]) (simp_all add: up_folderMap)
  have "if v = PartiallyChecked
      then (if v = PartiallyChecked then up v m idx
            else loopResult v idx 0 (set_checked v node) (up v m idx)) = up v m idx
      else runsChildren (up v m idx) idx 0 v
        (if v = PartiallyChecked then up v m idx
         else loopResult v idx 0 (set_checked v node) (up v m idx))"
    using loop [OF _ up_wellAddressed [OF assms(1)] mat2 node2] by simp
  from runs_change [OF assms(2-4) n1 this] show ?thesis by (simp add: setDataResult_def)
qed

lemma nodeAt_updateAt_above:
  "strict_prefix a p \<Longrightarrow>
     nodeAt (updateAt f p fs) a =
       map_option (\<lambda>n. set_subs (updateAt f (drop (length a) p) (subs n)) n) (nodeAt fs a)"
proof (induction a arbitrary: p fs)
  case Nil
  then show ?case by simp
next
  case (Cons s a)
  from Cons.prems obtain r p' where p: "p = r # p'" and s: "s = r" and sp: "strict_prefix a p'"
    by (cases p) (auto simp: strict_prefix_def)
  show ?case
  proof (cases "r < length fs")
    case False
    with p s show ?thesis by simp
  next
    case True
    from sp have p': "p' \<noteq> []" by (auto simp: strict_prefix_def)
    show ?thesis
    proof (cases "a = []")
      case True
      with p s p' \<open>r < length fs\<close> show ?thesis by simp
    next
      case False
      with Cons.IH [OF sp, of "subs (fs ! r)"] p s p' True show ?thesis by simp
    qed
  qed
qed

lemma checked_updateAt_above:
  "strict_prefix a p \<Longrightarrow>
     map_option checked (nodeAt (updateAt f p fs) a) = map_option checked (nodeAt fs a)"
  by (simp add: nodeAt_updateAt_above option.map_comp comp_def)

lemma nodeAt_updateAt_at: "nodeAt (updateAt f p fs) p = map_option f (nodeAt fs p)"
proof (cases "nodeAt fs p")
  case None
  then show ?thesis
  proof (induction p arbitrary: fs)
    case Nil
    then show ?case by simp
  next
    case (Cons r p)
    then show ?case by (cases "p = []") (auto split: if_splits)
  qed
next
  case (Some n)
  then show ?thesis by (simp add: nodeAt_updateAt_same)
qed

lemma cascadeFrom_sel [simp]:
  "checked (cascadeFrom v i n) = checked n" "pathIdx (cascadeFrom v i n) = pathIdx n"
  "fetched (cascadeFrom v i n) = fetched n" "fetching (cascadeFrom v i n) = fetching n"
  "length (subs (cascadeFrom v i n)) = length (subs n)"
  by (simp_all add: cascadeFrom_def)

lemma setDataResult_folders:
  "folders (setDataResult v m idx node) =
     (if v = PartiallyChecked then folders (up v m idx)
      else updateAt (cascadeFrom v 0) idx (folders (up v m idx)))"
  by (simp add: setDataResult_def loopResult_def)

lemma checked_setDataResult_prefix:
  assumes "prefix a idx"
  shows "map_option checked (nodeAt (folders (setDataResult v m idx node)) a)
     = map_option checked (nodeAt (folders (up v m idx)) a)"
proof (cases "a = idx")
  case True
  then show ?thesis
    by (simp add: setDataResult_folders nodeAt_updateAt_at option.map_comp comp_def)
next
  case False
  with assms have "strict_prefix a idx" by (simp add: strict_prefix_def)
  then show ?thesis by (simp add: setDataResult_folders checked_updateAt_above)
qed

lemma take_strict_prefix: "k < length idx \<Longrightarrow> strict_prefix (take k idx) idx"
  by (metis append_take_drop_id drop_eq_Nil2 leD prefixI strict_prefix_def take_all_iff)

lemma take_prefix_butlast: "k < length idx \<Longrightarrow> prefix (take k idx) (butlast idx)"
  by (metis take_butlast take_is_prefix)

lemma updateAt_single:
  "updateAt f [k] ss = (if k < length ss then ss[k := f (ss ! k)] else ss)"
  by simp

lemma parent_node_after_set:
  assumes "nodeAt fs idx = Some node" and "2 \<le> length idx"
    and "nodeAt fs (butlast idx) = Some pn"
  shows "nodeAt (updateAt (set_checked v) idx fs) (butlast idx)
     = Some (set_subs ((subs pn)[last idx := set_checked v node]) pn)"
proof -
  from assms(2) have sp: "strict_prefix (butlast idx) idx"
    by (cases idx rule: rev_cases) (auto simp: strict_prefix_def)
  from assms(2) have dr: "drop (length idx - Suc 0) idx = [last idx]"
    by (cases idx rule: rev_cases) auto
  from nodeAt_butlast [OF assms(1,2)] assms(3)
  have "last idx < length (subs pn)" "subs pn ! last idx = node" by auto
  with assms(3) show ?thesis
    by (simp add: nodeAt_updateAt_above [OF sp] dr)
qed

lemma nodeAt_append:
  "nodeAt fs p = Some n \<Longrightarrow> r \<noteq> [] \<Longrightarrow> nodeAt fs (p @ r) = nodeAt (subs n) r"
proof (induction p arbitrary: fs)
  case Nil
  then show ?case by simp
next
  case (Cons s p)
  then show ?case by (cases "p = []") (auto split: if_splits)
qed

lemma nodeAt_updateAt_ext:
  "nodeAt fs p = Some n \<Longrightarrow> r \<noteq> [] \<Longrightarrow> nodeAt (updateAt f p fs) (p @ r) = nodeAt (subs (f n)) r"
  by (rule nodeAt_append [OF nodeAt_updateAt_same])

lemma nodeAt_updateAt_other:
  "\<not> prefix q p \<Longrightarrow> \<not> prefix p q \<Longrightarrow> nodeAt (updateAt f p fs) q = nodeAt fs q"
proof (induction q arbitrary: p fs)
  case Nil
  then show ?case by simp
next
  case (Cons s q)
  from Cons.prems obtain r p' where p: "p = r # p'" by (cases p) auto
  show ?case
  proof (cases "s = r")
    case False
    with p show ?thesis by simp
  next
    case True
    with Cons.prems p have np: "\<not> prefix q p'" "\<not> prefix p' q" by auto
    then have ne: "q \<noteq> []" "p' \<noteq> []" by auto
    with Cons.IH [OF np, of "subs (fs ! r)"] True p show ?thesis by simp
  qed
qed

lemma nodeAt_Cons_Suc: "nodeAt (x # xs) (Suc k # r) = nodeAt xs (k # r)"
  by simp

lemma down_notified:
  "(DataChanged q \<in> set (downSignals v c n) \<longleftrightarrow>
      q = c \<or> (\<exists>r. r \<noteq> [] \<and> q = c @ r \<and>
        map_option checked (nodeAt (map (cascadeIf v) (subs n)) r)
          \<noteq> map_option checked (nodeAt (subs n) r)))"
  "(DataChanged q \<in> set (downSignalsFrom v c i ss) \<longleftrightarrow>
      (\<exists>k r. q = c @ (i + k) # r \<and>
        map_option checked (nodeAt (map (cascadeIf v) ss) (k # r))
          \<noteq> map_option checked (nodeAt ss (k # r))))"
proof (induction v c n and v c i ss rule: downSignals_downSignalsFrom.induct)
  case (1 v c f n p pi ss sz fe fg st)
  let ?Q = "\<lambda>r. map_option checked (nodeAt (map (cascadeIf v) ss) r)
      \<noteq> map_option checked (nodeAt ss r)"
  have ex: "(\<exists>r. r \<noteq> [] \<and> q = c @ r \<and> ?Q r) \<longleftrightarrow> (\<exists>k r. q = c @ (0 + k) # r \<and> ?Q (k # r))"
    (is "?L \<longleftrightarrow> ?R")
  proof
    assume ?L
    then obtain r where r: "r \<noteq> []" "q = c @ r" "?Q r" by blast
    then obtain k r' where "r = k # r'" by (cases r) auto
    with r have "q = c @ (0 + k) # r'" "?Q (k # r')" by simp_all
    then show ?R by blast
  next
    assume ?R
    then obtain k r where "q = c @ (k # r)" "?Q (k # r)" "k # r \<noteq> []" by auto
    then show ?L by blast
  qed
  have "DataChanged q \<in> set (downSignals v c (SubFolderInfo f n p pi ss sz fe fg st)) \<longleftrightarrow>
      q = c \<or> DataChanged q \<in> set (downSignalsFrom v c 0 ss)"
    by auto
  also have "\<dots> \<longleftrightarrow> q = c \<or> (\<exists>k r. q = c @ (0 + k) # r \<and> ?Q (k # r))"
    by (simp only: "1.IH")
  also have "\<dots> \<longleftrightarrow> q = c \<or> (\<exists>r. r \<noteq> [] \<and> q = c @ r \<and> ?Q r)"
    by (simp only: ex)
  finally show ?case by simp
next
  case (2 v c i)
  show ?case by simp
next
  case (3 v c i s ss)
  define P where "P = (\<lambda>xs k r. map_option checked (nodeAt (map (cascadeIf v) xs) (k # r))
          \<noteq> map_option checked (nodeAt xs (k # r)))"
  define S where "S = (\<lambda>r. map_option checked (nodeAt (map (cascadeIf v) (subs s)) r)
            \<noteq> map_option checked (nodeAt (subs s) r))"
  have sucP: "P (s # ss) (Suc k) r \<longleftrightarrow> P ss k r" for k r
    unfolding P_def by (simp only: list.map nodeAt_Cons_Suc)
  have zero_same: "\<not> P (s # ss) 0 r" if "checked s = v" for r
    using that unfolding P_def by (simp add: cascadeIf_def)
  have zero_diff: "P (s # ss) 0 r \<longleftrightarrow> r = [] \<or> S r" if "checked s \<noteq> v" for r
    using that unfolding P_def S_def by (simp add: cascadeIf_def)
  have split: "(\<exists>k r. q = c @ (i + k) # r \<and> P (s # ss) k r) \<longleftrightarrow>
      (\<exists>r. q = c @ i # r \<and> P (s # ss) 0 r) \<or> (\<exists>k r. q = c @ (Suc i + k) # r \<and> P ss k r)"
    (is "?L \<longleftrightarrow> ?A \<or> ?B")
  proof
    assume ?L
    then obtain k r where kr: "q = c @ (i + k) # r" "P (s # ss) k r" by blast
    show "?A \<or> ?B"
    proof (cases k)
      case 0
      with kr show ?thesis by auto
    next
      case (Suc k')
      with kr sucP [of k' r] have "q = c @ (Suc i + k') # r" "P ss k' r" by simp_all
      then show ?thesis by blast
    qed
  next
    assume "?A \<or> ?B"
    then show ?L
    proof
      assume ?A
      then obtain r where "q = c @ (i + 0) # r" "P (s # ss) 0 r" by auto
      then show ?L by blast
    next
      assume ?B
      then obtain k r where "q = c @ (Suc i + k) # r" "P ss k r" by blast
      with sucP [of k r] have "q = c @ (i + Suc k) # r" "P (s # ss) (Suc k) r" by simp_all
      then show ?L by blast
    qed
  qed
  have tl: "DataChanged q \<in> set (downSignalsFrom v c (Suc i) ss) \<longleftrightarrow>
      (\<exists>k r. q = c @ (Suc i + k) # r \<and> P ss k r)"
    unfolding P_def by (rule "3.IH"(2))
  have goal: "DataChanged q \<in> set (downSignalsFrom v c i (s # ss)) \<longleftrightarrow>
      (\<exists>k r. q = c @ (i + k) # r \<and> P (s # ss) k r)"
  proof (cases "checked s = v")
    case True
    then have "DataChanged q \<in> set (downSignalsFrom v c i (s # ss)) \<longleftrightarrow>
        DataChanged q \<in> set (downSignalsFrom v c (Suc i) ss)" by simp
    moreover have "\<not> (\<exists>r. q = c @ i # r \<and> P (s # ss) 0 r)"
      using zero_same [OF True] by blast
    ultimately show ?thesis using tl split by blast
  next
    case False
    have hd: "DataChanged q \<in> set (downSignals v (c @ [i]) s) \<longleftrightarrow>
        q = c @ [i] \<or> (\<exists>r. r \<noteq> [] \<and> q = (c @ [i]) @ r \<and> S r)"
      unfolding S_def by (rule "3.IH"(1)) (use False in simp)
    have "(\<exists>r. q = c @ i # r \<and> P (s # ss) 0 r) \<longleftrightarrow>
        q = c @ [i] \<or> (\<exists>r. r \<noteq> [] \<and> q = (c @ [i]) @ r \<and> S r)"
      (is "?A \<longleftrightarrow> ?B")
    proof
      assume ?A
      then obtain r where r: "q = c @ i # r" "r = [] \<or> S r" using zero_diff [OF False] by blast
      show ?B
      proof (cases "r = []")
        case True
        with r show ?thesis by simp
      next
        case False
        with r have "r \<noteq> []" "q = (c @ [i]) @ r" "S r" by simp_all
        then show ?thesis by blast
      qed
    next
      assume ?B
      then show ?A
      proof
        assume "q = c @ [i]"
        then have "q = c @ i # []" "P (s # ss) 0 []" using zero_diff [OF False] by simp_all
        then show ?A by blast
      next
        assume "\<exists>r. r \<noteq> [] \<and> q = (c @ [i]) @ r \<and> S r"
        then obtain r where "q = c @ i # r" "P (s # ss) 0 r" using zero_diff [OF False] by auto
        then show ?A by blast
      qed
    qed
    moreover from False have "DataChanged q \<in> set (downSignalsFrom v c i (s # ss)) \<longleftrightarrow>
        DataChanged q \<in> set (downSignals v (c @ [i]) s) \<or>
        DataChanged q \<in> set (downSignalsFrom v c (Suc i) ss)" by simp
    ultimately show ?thesis using hd tl split by blast
  qed
  then show ?case unfolding P_def .
qed

lemma down_kinds:
  "x \<in> set (downSignals v c n) \<Longrightarrow> x = DirtyChanged \<or> (\<exists>q. x = DataChanged q)"
  "x \<in> set (downSignalsFrom v c i ss) \<Longrightarrow> x = DirtyChanged \<or> (\<exists>q. x = DataChanged q)"
  by (induction v c n and v c i ss rule: downSignals_downSignalsFrom.induct)
     (auto split: if_splits)

lemma down_distinct:
  "distinct (filter (\<lambda>s. s \<noteq> DirtyChanged) (downSignals v c n))"
  "distinct (filter (\<lambda>s. s \<noteq> DirtyChanged) (downSignalsFrom v c i ss))"
proof (induction v c n and v c i ss rule: downSignals_downSignalsFrom.induct)
  case (1 v c f n p pi ss sz fe fg st)
  have "DataChanged c \<notin> set (downSignalsFrom v c 0 ss)"
    by (simp add: down_notified(2))
  with 1 show ?case by simp
next
  case (2 v c i)
  show ?case by simp
next
  case (3 v c i s ss)
  show ?case
  proof (cases "checked s = v")
    case True
    with "3.IH"(2) show ?thesis by simp
  next
    case False
    have "x \<notin> set (downSignalsFrom v c (Suc i) ss)"
      if x: "x \<in> set (downSignals v (c @ [i]) s)" "x \<noteq> DirtyChanged" for x
    proof
      assume y: "x \<in> set (downSignalsFrom v c (Suc i) ss)"
      from down_kinds(1) [OF x(1)] x(2) obtain q where q: "x = DataChanged q" by auto
      from x(1) have "q = c @ [i] \<or> (\<exists>r. q = (c @ [i]) @ r)"
        unfolding q down_notified(1) by blast
      then obtain r where r: "q = c @ i # r" by auto
      from y obtain k r' where "q = c @ (Suc i + k) # r'"
        unfolding q down_notified(2) by blast
      with r show False by simp
    qed
    with False "3.IH"(1) [OF False] "3.IH"(2) show ?thesis by auto
  qed
qed

lemma strict_prefix_butlast:
  "p \<noteq> [] \<Longrightarrow> strict_prefix q p \<longleftrightarrow> q = butlast p \<or> strict_prefix q (butlast p)"
  by (cases p rule: rev_cases) (auto simp: strict_prefix_def)

lemma up_signals:
  "\<exists>new. signals (up v m p) = signals m @ new \<and>
     distinct (filter (\<lambda>s. s \<noteq> DirtyChanged) new) \<and>
     (\<forall>q. DataChanged q \<in> set new \<longleftrightarrow>
        strict_prefix q p \<and> stateAt (up v m p) q \<noteq> stateAt m q)"
proof (induction v m p rule: up.induct)
  case (1 v m p)
  define m1 where "m1 = m\<lparr>folders := updateAt (set_checked v) p (folders m)\<rparr>"
  have st1: "stateAt m1 q = stateAt m q" if "q \<noteq> p" for q
    using that by (simp add: stateAt_def m1_def checked_nodeAt_set_checked)
  show ?case
  proof (cases "2 \<le> length p \<and> (\<exists>pn v'. nodeAt (folders m1) (butlast p) = Some pn \<and>
      parentCall v pn = Some v')")
    case False
    then have "up v m p = m1"
      by (subst up.simps) (auto simp: Let_def m1_def split: option.splits)
    moreover have "signals m1 = signals m" by (simp add: m1_def)
    moreover have "\<not> (strict_prefix q p \<and> stateAt m1 q \<noteq> stateAt m q)" for q
      using st1 [of q] by (auto simp: strict_prefix_def)
    ultimately show ?thesis by simp
  next
    case True
    then obtain pn v' where len: "2 \<le> length p"
      and pn: "nodeAt (folders m1) (butlast p) = Some pn" "parentCall v pn = Some v'"
      by auto
    let ?bp = "butlast p"
    from len have ne: "p \<noteq> []" and bp: "?bp \<noteq> p"
      by (auto dest: arg_cong [of _ _ length])
    from pn len have eq: "up v m p = changed (up v' m1 ?bp) ?bp"
      by (subst up.simps) (simp add: Let_def m1_def)
    from "1.IH" [OF refl len pn [unfolded m1_def], folded m1_def] obtain new' where
      sig: "signals (up v' m1 ?bp) = signals m1 @ new'"
      and dist: "distinct (filter (\<lambda>s. s \<noteq> DirtyChanged) new')"
      and new': "\<And>q. DataChanged q \<in> set new' \<longleftrightarrow>
        strict_prefix q ?bp \<and> stateAt (up v' m1 ?bp) q \<noteq> stateAt m1 q"
      by blast
    have at: "stateAt (up v m p) ?bp = Some v'"
      using nodeAt_updateAt_same [OF pn(1)] by (simp add: eq stateAt_def up_frame)
    have before: "stateAt m ?bp = Some (checked pn)"
      using st1 [OF bp] pn(1) by (simp add: stateAt_def)
    from parentCall_Some [OF pn(2)] have neq: "checked pn \<noteq> v'" by simp
    have same: "stateAt (up v m p) q = stateAt (up v' m1 ?bp) q" for q
      by (simp add: eq stateAt_def)
    have s1: "signals m1 = signals m" by (simp add: m1_def)
    have "signals (up v m p) = signals m @ (new' @ [DirtyChanged, DataChanged ?bp])"
      by (simp add: eq sig s1)
    moreover have "distinct (filter (\<lambda>s. s \<noteq> DirtyChanged)
        (new' @ [DirtyChanged, DataChanged ?bp]))"
      using dist new' [of ?bp] by simp
    moreover have "DataChanged q \<in> set (new' @ [DirtyChanged, DataChanged ?bp]) \<longleftrightarrow>
        strict_prefix q p \<and> stateAt (up v m p) q \<noteq> stateAt m q" for q
    proof (cases "q = ?bp")
      case True
      with at before neq ne show ?thesis by (simp add: strict_prefix_butlast)
    next
      case False
      have "strict_prefix q ?bp \<Longrightarrow> q \<noteq> p"
        using prefix_length_less [of q ?bp] by auto
      then have "strict_prefix q ?bp \<Longrightarrow> stateAt m1 q = stateAt m q" by (rule st1)
      with False ne new' [of q] same [of q] show ?thesis
        by (auto simp: strict_prefix_butlast)
    qed
    ultimately show ?thesis by blast
  qed
qed

lemma strip_trailing_once:
  "\<not> suffix ''//'' p \<Longrightarrow>
     rev (dropWhile (\<lambda>c. c = CHR ''/'') (rev p))
       = (if endsWith p CHR ''/'' then butlast p else p)"
proof (induction p rule: rev_induct)
  case Nil
  then show ?case by (simp add: endsWith_def)
next
  case (snoc x xs)
  show ?case
  proof (cases "x = CHR ''/''")
    case False
    then show ?thesis by (simp add: endsWith_def)
  next
    case True
    with snoc.prems have "xs = [] \<or> last xs \<noteq> CHR ''/''"
      by (cases xs rule: rev_cases) (auto simp: suffix_def)
    then have "dropWhile (\<lambda>c. c = CHR ''/'') (rev xs) = rev xs"
      by (cases xs rule: rev_cases) auto
    with True show ?thesis by (simp add: endsWith_def)
  qed
qed

lemma strip_leading_once:
  "\<not> prefix ''//'' c \<Longrightarrow>
     dropWhile (\<lambda>x. x = CHR ''/'') c = (if startsWith c CHR ''/'' then tl c else c)"
  by (cases c; cases "tl c") (auto simp: startsWith_def)

lemma newSubFolderInfo_state:
  "newSubFolderInfo fm sizes ptr parentInfo i listed = Inr (Some child) \<Longrightarrow>
   checked child =
     (if checked parentInfo = Unchecked then Unchecked
      else if path child \<in> set (selectiveSyncBlackList (fm ! hd (pathIdx parentInfo)))
              \<or> ''/'' \<in> set (selectiveSyncBlackList (fm ! hd (pathIdx parentInfo)))
        then Unchecked
      else if \<exists>str\<in>set (selectiveSyncBlackList (fm ! hd (pathIdx parentInfo))).
                prefix (path child) str
        then PartiallyChecked
      else Checked)"
  by (auto simp: newSubFolderInfo_def Let_def initialChecked_def bindE_Inr_iff
        blackListState_eq SubFolderInfo0_def split: list.splits if_splits)

lemma slotUpdateDirectories_children:
  assumes "materialized m (parentIndex job)"
    and "nodeAt (folders m) (parentIndex job) = Some node"
    and "slotUpdateDirectories m job sizes (first # list1) = Inr m'"
  shows "\<exists>f children.
      folder node = Some f \<and>
      nodeAt (folders m') (parentIndex job) =
        Some (set_subs (subs node @ children) (set_fetching False (set_fetched True node))) \<and>
      length children = length list1 \<and>
      (\<forall>k<length list1.
         path (children ! k) = removeStr (pathToRemove (remoteUrl (folderMap m ! f))) (list1 ! k) \<and>
         name (children ! k) = last (splitSkipEmptyParts CHR ''/'' (path (children ! k))) \<and>
         name (children ! k) \<noteq> [] \<and> CHR ''/'' \<notin> set (name (children ! k)) \<and>
         (\<exists>pre post. path (children ! k) = pre @ name (children ! k) @ post \<and>
            set post \<subseteq> {CHR ''/''} \<and> (pre = [] \<or> last pre = CHR ''/'')) \<and>
         (\<forall>rest. list1 ! k = pathToRemove (remoteUrl (folderMap m ! f)) @ rest \<and>
            \<not> sublist (pathToRemove (remoteUrl (folderMap m ! f))) rest \<longrightarrow>
            path (children ! k) = rest)) \<and>
      slotUpdateDirectories m job sizes (other # list1) = Inr m'"
proof -
  from slotUpdateDirectories_Inr [OF assms] obtain f node' where
    f: "folder node = Some f" "f < length (folderMap m)"
    and app: "appendSubs (folderMap m) sizes (pathToRemove (remoteUrl (folderMap m ! f)))
             (set_fetching False (set_fetched True node)) 0 list1 = Inr node'"
    and m': "m' = emit [RowsInserted (parentIndex job) 0 (length list1)]
                  (m\<lparr>folders := updateAt (\<lambda>_. node') (parentIndex job) (folders m)\<rparr>)"
    by blast
  define ptr where "ptr = pathToRemove (remoteUrl (folderMap m ! f))"
  define n0 where "n0 = set_fetching False (set_fetched True node)"
  from appendSubs_Inr [OF app] obtain cs where
    cs: "node' = set_subs (subs n0 @ cs) n0" "length cs = length list1"
      "\<forall>k<length list1. newSubFolderInfo (folderMap m) sizes ptr n0 (0 + k) (list1 ! k)
          = Inr (Some (cs ! k))"
    unfolding ptr_def n0_def by blast
  have node: "nodeAt (folders m') (parentIndex job) = Some (set_subs (subs node @ cs) n0)"
    using nodeAt_updateAt_same [OF assms(2), of "\<lambda>_. node'"] cs(1)
    by (simp add: m' emit_def n0_def)
  have each: "path (cs ! k) = removeStr ptr (list1 ! k) \<and>
         name (cs ! k) = last (splitSkipEmptyParts CHR ''/'' (path (cs ! k))) \<and>
         name (cs ! k) \<noteq> [] \<and> CHR ''/'' \<notin> set (name (cs ! k)) \<and>
         (\<exists>pre post. path (cs ! k) = pre @ name (cs ! k) @ post \<and>
            set post \<subseteq> {CHR ''/''} \<and> (pre = [] \<or> last pre = CHR ''/'')) \<and>
         (\<forall>rest. list1 ! k = ptr @ rest \<and> \<not> sublist ptr rest \<longrightarrow> path (cs ! k) = rest)"
    if k: "k < length list1" for k
  proof -
    from cs(3) k have new: "newSubFolderInfo (folderMap m) sizes ptr n0 k (list1 ! k)
          = Inr (Some (cs ! k))" by simp
    from newSubFolderInfo_Some(1-3) [OF new]
    have p: "path (cs ! k) = removeStr ptr (list1 ! k)"
      and ne: "splitFrom CHR ''/'' [] (path (cs ! k)) \<noteq> []"
      and nm: "name (cs ! k) = last (splitFrom CHR ''/'' [] (path (cs ! k)))"
      by (simp_all add: splitSkipEmptyParts_def)
    from splitFrom_last [OF ne] nm have seg:
      "name (cs ! k) \<noteq> [] \<and> CHR ''/'' \<notin> set (name (cs ! k)) \<and>
         (\<exists>pre post. path (cs ! k) = pre @ name (cs ! k) @ post \<and>
            set post \<subseteq> {CHR ''/''} \<and> (pre = [] \<or> last pre = CHR ''/''))"
      by auto
    have ptr_ne: "ptr \<noteq> []" by (simp add: ptr_def pathToRemove_nonempty)
    have "path (cs ! k) = rest" if "list1 ! k = ptr @ rest" "\<not> sublist ptr rest" for rest
      using that p removeStr_prefix [OF ptr_ne, of rest] removeStr_no_occurrence [of ptr rest]
      by simp
    with p nm seg show ?thesis by (simp add: splitSkipEmptyParts_def)
  qed
  have other: "slotUpdateDirectories m job sizes (other # list1) = Inr m'"
  proof -
    from assms(2) have "parentIndex job \<noteq> []" by auto
    with assms(3) show ?thesis
      by (simp add: slotUpdateDirectories_def Let_def infoForIndex_materialized [OF assms(1)])
  qed
  from f(1) node cs(2) each other show ?thesis
    unfolding ptr_def n0_def by blast
qed

lemma applyToFolder_effect:
  "selectiveSyncBlackList (applyToFolder root f)
      = createBlackList (Some root) (selectiveSyncBlackList f) \<and>
   folderAlias (applyToFolder root f) = folderAlias f \<and>
   remotePath (applyToFolder root f) = remotePath f \<and>
   remoteUrl (applyToFolder root f) = remoteUrl f \<and>
   isBusy (applyToFolder root f) = isBusy f \<and>
   avoidReadFromDb (applyToFolder root f) =
     avoidReadFromDb f \<union>
       {p. p \<in> set (selectiveSyncBlackList f) \<and>
             p \<notin> set (createBlackList (Some root) (selectiveSyncBlackList f)) \<or>
           p \<in> set (createBlackList (Some root) (selectiveSyncBlackList f)) \<and>
             p \<notin> set (selectiveSyncBlackList f)} \<and>
   terminateSyncCalls (applyToFolder root f) =
     (if {p. p \<in> set (selectiveSyncBlackList f) \<and>
               p \<notin> set (createBlackList (Some root) (selectiveSyncBlackList f)) \<or>
             p \<in> set (createBlackList (Some root) (selectiveSyncBlackList f)) \<and>
               p \<notin> set (selectiveSyncBlackList f)} \<noteq> {} \<and> isBusy f
      then Suc (terminateSyncCalls f) else terminateSyncCalls f)"
proof -
  have ch: "changes old new = {p. p \<in> set old \<and> p \<notin> set new \<or> p \<in> set new \<and> p \<notin> set old}"
    for old new
    by (auto simp: changes_def)
  show ?thesis
    unfolding ch [symmetric] by (simp add: applyToFolder_def Let_def)
qed

lemma changesAt_eq:
  "changesAt m j =
     {p. p \<in> set (selectiveSyncBlackList (folderMap m ! j)) \<and>
           p \<notin> set (createBlackList (Some (folders m ! j))
                      (selectiveSyncBlackList (folderMap m ! j))) \<or>
         p \<in> set (createBlackList (Some (folders m ! j))
                    (selectiveSyncBlackList (folderMap m ! j))) \<and>
           p \<notin> set (selectiveSyncBlackList (folderMap m ! j))}"
  by (auto simp: changesAt_def changes_def)

lemma cascadeIf_sel:
  "folder (cascadeIf v n) = folder n" "name (cascadeIf v n) = name n"
  "path (cascadeIf v n) = path n" "pathIdx (cascadeIf v n) = pathIdx n"
  "sizeBytes (cascadeIf v n) = sizeBytes n" "fetched (cascadeIf v n) = fetched n"
  "fetching (cascadeIf v n) = fetching n" "checked (cascadeIf v n) = v"
  "length (subs (cascadeIf v n)) = length (subs n)"
  "checked n = v \<Longrightarrow> cascadeIf v n = n"
  by (simp_all add: cascadeIf_def)

lemma nodeAt_cascadeIf:
  "nodeAt (map (cascadeIf v) ss) r =
     (case nodeAt ss r of
        None \<Rightarrow> None
      | Some n0 \<Rightarrow>
          Some (if \<exists>r'. r' \<noteq> [] \<and> strict_prefix r' r \<and>
                     map_option checked (nodeAt ss r') = Some v
                then n0 else cascadeIf v n0))"
proof (induction r arbitrary: ss)
  case Nil
  show ?case by simp
next
  case (Cons k r)
  show ?case
  proof (cases "k < length ss")
    case False
    then show ?thesis by simp
  next
    case k: True
    show ?thesis
    proof (cases "r = []")
      case True
      have nb: "\<not> (\<exists>r'. r' \<noteq> [] \<and> strict_prefix r' [k] \<and>
          map_option checked (nodeAt ss r') = Some v)"
        by (auto simp: strict_prefix_def prefix_Cons)
      have "nodeAt (map (cascadeIf v) ss) [k] = Some (cascadeIf v (ss ! k))"
        "nodeAt ss [k] = Some (ss ! k)" using k by simp_all
      with True show ?thesis by (simp only: nb if_False option.case)
    next
      case r: False
      let ?B = "\<exists>r'. r' \<noteq> [] \<and> strict_prefix r' (k # r) \<and>
          map_option checked (nodeAt ss r') = Some v"
      show ?thesis
      proof (cases "checked (ss ! k) = v")
        case True
        then have same: "nodeAt (map (cascadeIf v) ss) (k # r) = nodeAt ss (k # r)"
          using k r by (simp add: cascadeIf_def)
        have "strict_prefix [k] (k # r)" using r by (simp add: strict_prefix_def)
        moreover have "map_option checked (nodeAt ss [k]) = Some v" using k True by simp
        ultimately have ?B by blast
        with same show ?thesis by (simp del: nodeAt.simps split: option.splits)
      next
        case False
        let ?ss' = "subs (ss ! k)"
        let ?B' = "\<exists>q. q \<noteq> [] \<and> strict_prefix q r \<and>
          map_option checked (nodeAt ?ss' q) = Some v"
        have eq: "nodeAt (map (cascadeIf v) ss) (k # r) = nodeAt (map (cascadeIf v) ?ss') r"
          using k r False by (simp add: cascadeIf_def)
        have old: "nodeAt ss (k # r) = nodeAt ?ss' r" using k r by simp
        have BB: "?B \<longleftrightarrow> ?B'"
        proof
          assume ?B
          then obtain r' where r': "r' \<noteq> []" "strict_prefix r' (k # r)"
            "map_option checked (nodeAt ss r') = Some v" by blast
          from r'(1,2) obtain q where q: "r' = k # q" "strict_prefix q r"
            by (cases r') (auto simp: strict_prefix_def)
          with r'(3) False k have "q \<noteq> []" by (cases "q = []") auto
          with q r'(3) k have "map_option checked (nodeAt ?ss' q) = Some v" by simp
          with q \<open>q \<noteq> []\<close> show ?B' by blast
        next
          assume ?B'
          then obtain q where q: "q \<noteq> []" "strict_prefix q r"
            "map_option checked (nodeAt ?ss' q) = Some v" by blast
          then have "k # q \<noteq> []" "strict_prefix (k # q) (k # r)"
            "map_option checked (nodeAt ss (k # q)) = Some v"
            using k by (simp_all add: strict_prefix_def)
          then show ?B by blast
        qed
        note eq
        also have "nodeAt (map (cascadeIf v) ?ss') r =
            (case nodeAt ?ss' r of None \<Rightarrow> None
             | Some n0 \<Rightarrow> Some (if ?B' then n0 else cascadeIf v n0))"
          by (rule Cons.IH)
        also have "\<dots> = (case nodeAt ss (k # r) of None \<Rightarrow> None
             | Some n0 \<Rightarrow> Some (if ?B then n0 else cascadeIf v n0))"
          by (simp only: old BB)
        finally show ?thesis .
      qed
    qed
  qed
qed

lemma nodeAt_Nil: "nodeAt [] q = None"
  by (cases q) simp_all

lemma wellAddressed_nodeAt:
  assumes "wellAddressed m" and "nodeAt (folders m) q = Some n"
  shows "pathIdx n = q \<or> (length q = 1 \<and> pathIdx n = [] \<and> subs n = [])"
proof (cases "2 \<le> length q")
  case True
  from wellAddressed_pathIdx [OF assms True] show ?thesis by simp
next
  case False
  with assms(2) obtain r where q: "q = [r]" by (cases q; cases "tl q") auto
  with assms(2) have r: "r < length (folders m)" "n = folders m ! r" by (auto split: if_splits)
  with assms(1) have "pathIdx n = [] \<and> subs n = [] \<or> addressedFrom [r] n"
    by (auto simp: wellAddressed_def rootsAddressed_iff)
  with q show ?thesis by (auto simp: addressedFrom_iff)
qed

lemma addressedFromI:
  "pathIdx n = a \<Longrightarrow> (\<And>q n'. nodeAt (subs n) q = Some n' \<Longrightarrow> pathIdx n' = a @ q) \<Longrightarrow>
     addressedFrom a n"
proof (induction n arbitrary: a)
  case (SubFolderInfo f nm p pi ss sz fe fg c)
  have "addressedFrom (a @ [0 + k]) (ss ! k)" if k: "k < length ss" for k
  proof (rule SubFolderInfo.IH)
    show "ss ! k \<in> set ss" using k by simp
    from SubFolderInfo.prems(2) [of "[k]" "ss ! k"] k show "pathIdx (ss ! k) = a @ [0 + k]" by simp
    fix q n' assume q: "nodeAt (subs (ss ! k)) q = Some n'"
    then have "q \<noteq> []" by (auto simp: nodeAt_Nil)
    with q k have "nodeAt ss (k # q) = Some n'" by simp
    from SubFolderInfo.prems(2) [of "k # q" n'] this show "pathIdx n' = (a @ [0 + k]) @ q" by simp
  qed
  then have "addressedList a 0 ss" by (subst addressedList_iff) simp
  with SubFolderInfo.prems(1) show ?case by simp
qed

lemma wellAddressedI:
  assumes "length (folders m) \<le> length (folderMap m)"
    and "\<And>q n. nodeAt (folders m) q = Some n \<Longrightarrow>
           pathIdx n = q \<or> (length q = 1 \<and> pathIdx n = [] \<and> subs n = [])"
  shows "wellAddressed m"
proof -
  have "pathIdx (folders m ! k) = [] \<and> subs (folders m ! k) = [] \<or>
      addressedFrom [0 + k] (folders m ! k)" if k: "k < length (folders m)" for k
  proof (cases "pathIdx (folders m ! k) = [] \<and> subs (folders m ! k) = []")
    case True
    then show ?thesis by simp
  next
    case False
    from k have root: "nodeAt (folders m) [k] = Some (folders m ! k)" by simp
    from assms(2) [OF root] False have pk: "pathIdx (folders m ! k) = [k]" by auto
    have "addressedFrom [k] (folders m ! k)"
    proof (rule addressedFromI [OF pk])
      fix q n' assume q: "nodeAt (subs (folders m ! k)) q = Some n'"
      then have "q \<noteq> []" by auto
      with q k have at: "nodeAt (folders m) (k # q) = Some n'" by simp
      from assms(2) [OF at] \<open>q \<noteq> []\<close> show "pathIdx n' = [k] @ q" by auto
    qed
    then show ?thesis by simp
  qed
  with assms(1) show ?thesis by (simp add: wellAddressed_def rootsAddressed_iff)
qed

lemma nodeAt_root_update:
  "r < length X \<Longrightarrow> subs g = subs (X ! r) \<Longrightarrow>
     nodeAt (X[r := g]) q = (if q = [r] then Some g else nodeAt X q)"
proof (cases q)
  case Nil
  then show ?thesis by simp
next
  case (Cons k p)
  assume "r < length X" "subs g = subs (X ! r)"
  with Cons show ?thesis by (cases "k = r") auto
qed

lemma nodeAt_append_new:
  "nodeAt (fs @ replicate k SubFolderInfo0) q =
     (case nodeAt fs q of
        Some n \<Rightarrow> Some n
      | None \<Rightarrow> if length q = 1 \<and> length fs \<le> hd q \<and> hd q < length fs + k
                then Some SubFolderInfo0 else None)"
proof (cases q)
  case Nil
  then show ?thesis by simp
next
  case (Cons r p)
  then show ?thesis
    by (auto simp: nth_append SubFolderInfo0_def nodeAt_Nil split: option.splits)
qed

lemma initRoot_sel:
  "pathIdx (initRoot row fm n) = pathIdx n @ [row]" "subs (initRoot row fm n) = subs n"
  "fetched (initRoot row fm n) = fetched n" "fetching (initRoot row fm n) = fetching n"
  "checked (initRoot row fm n) = checked n"
  by (simp_all add: initRoot_def)

lemma infoForIndex_nodes:
  assumes "infoForIndex m idx = Inr (m', info)"
  shows "folderMap m' = folderMap m \<and> jobs m' = jobs m \<and>
     (length (folders m) \<le> length (folderMap m) \<longrightarrow> length (folders m') \<le> length (folderMap m)) \<and>
     (\<forall>q n. nodeAt (folders m) q = Some n \<longrightarrow>
        (\<exists>n'. nodeAt (folders m') q = Some n' \<and> subs n' = subs n \<and> fetched n' = fetched n \<and>
           fetching n' = fetching n \<and> (pathIdx n' = pathIdx n \<or> pathIdx n = [] \<and> pathIdx n' = q))) \<and>
     (\<forall>q n'. nodeAt (folders m') q = Some n' \<longrightarrow> nodeAt (folders m) q = None \<longrightarrow>
        length q = 1 \<and> subs n' = [] \<and> \<not> fetched n' \<and> \<not> fetching n' \<and>
        (pathIdx n' = [] \<or> pathIdx n' = q))"
proof (cases "\<exists>row. idx = [row] \<and> row < length (folderMap m)")
  case False
  with assms have "m' = m"
    by (auto simp: infoForIndex_def split: list.splits option.splits if_splits)
  then show ?thesis by simp
next
  case True
  then obtain row where idx: "idx = [row]" and row: "row < length (folderMap m)" by auto
  note initRoot_sel [simp]
  define k where "k = row + 1 - length (folders m)"
  define X where "X = (if length (folders m) \<le> row
      then folders m @ replicate k SubFolderInfo0 else folders m)"
  define Y where "Y = (if pathIdx (X ! row) = []
      then X[row := initRoot row (folderMap m) (X ! row)] else X)"
  have "infoForIndex m [row] = Inr (m\<lparr>folders := Y\<rparr>, Some [row])"
    unfolding infoForIndex_def X_def Y_def k_def Let_def using row by simp
  with assms idx have m': "m' = m\<lparr>folders := Y\<rparr>" by simp
  have lenX: "row < length X" by (auto simp: X_def k_def)
  have lenY: "length Y = length X" by (simp add: Y_def)
  have lenX': "length (folders m) \<le> length (folderMap m) \<Longrightarrow> length X \<le> length (folderMap m)"
    using row by (auto simp: X_def k_def)
  have atX: "nodeAt X q =
      (case nodeAt (folders m) q of
         Some n \<Rightarrow> Some n
       | None \<Rightarrow> if length q = 1 \<and> length (folders m) \<le> hd q \<and> hd q < length (folders m) + k
                 then Some SubFolderInfo0 else None)" for q
  proof (cases "length (folders m) \<le> row")
    case True
    then show ?thesis by (simp add: X_def nodeAt_append_new)
  next
    case False
    then have "k = 0" by (simp add: k_def)
    with False show ?thesis by (simp add: X_def split: option.splits)
  qed
  have atY: "nodeAt Y q =
      (if q = [row] \<and> pathIdx (X ! row) = [] then Some (initRoot row (folderMap m) (X ! row))
       else nodeAt X q)" for q
    using nodeAt_root_update [OF lenX, of "initRoot row (folderMap m) (X ! row)" q] lenX
    by (simp add: Y_def)
  have rootX: "nodeAt X [row] = Some (X ! row)" using lenX by simp
  have old: "\<exists>n'. nodeAt Y q = Some n' \<and> subs n' = subs n \<and> fetched n' = fetched n \<and>
      fetching n' = fetching n \<and> (pathIdx n' = pathIdx n \<or> pathIdx n = [] \<and> pathIdx n' = q)"
    if n: "nodeAt (folders m) q = Some n" for q n
  proof -
    from n have x: "nodeAt X q = Some n" by (simp add: atX)
    show ?thesis
    proof (cases "q = [row] \<and> pathIdx (X ! row) = []")
      case True
      with x rootX have "n = X ! row" by simp
      with True show ?thesis by (simp add: atY del: nodeAt.simps)
    next
      case False
      then have "nodeAt Y q = nodeAt X q" by (auto simp: atY simp del: nodeAt.simps)
      with x show ?thesis by simp
    qed
  qed
  have new: "length q = 1 \<and> subs n' = [] \<and> \<not> fetched n' \<and> \<not> fetching n' \<and>
      (pathIdx n' = [] \<or> pathIdx n' = q)"
    if n': "nodeAt Y q = Some n'" and none: "nodeAt (folders m) q = None" for q n'
  proof -
    from none have x: "nodeAt X q = Some SubFolderInfo0 \<and> length q = 1 \<or> nodeAt X q = None"
      by (simp add: atX)
    show ?thesis
    proof (cases "q = [row] \<and> pathIdx (X ! row) = []")
      case True
      with x rootX have "X ! row = SubFolderInfo0" by simp
      with True n' show ?thesis
        by (auto simp: atY SubFolderInfo0_def initRoot_def simp del: nodeAt.simps)
    next
      case False
      then have "nodeAt Y q = nodeAt X q" by (auto simp: atY simp del: nodeAt.simps)
      with n' x show ?thesis by (auto simp: SubFolderInfo0_def)
    qed
  qed
  from old new lenX' lenY show ?thesis by (simp add: m')
qed

lemma consistent_infoForIndex:
  assumes "consistent m" and "infoForIndex m idx = Inr (m', info)"
  shows "consistent m'"
proof -
  note N = infoForIndex_nodes [OF assms(2)]
  from assms(1) have wa: "wellAddressed m" and ue: "unfetchedEmpty (folders m)"
    and jp: "jobsPending (folders m) (jobs m)" by (simp_all add: consistent_def)
  from N have fm: "folderMap m' = folderMap m" and jb: "jobs m' = jobs m" by simp_all
  from N wa have len: "length (folders m') \<le> length (folderMap m')"
    by (simp add: wellAddressed_def)
  have old: "\<exists>n'. nodeAt (folders m') q = Some n' \<and> subs n' = subs n \<and> fetched n' = fetched n \<and>
      fetching n' = fetching n \<and> (pathIdx n' = pathIdx n \<or> pathIdx n = [] \<and> pathIdx n' = q)"
    if "nodeAt (folders m) q = Some n" for q n
    using N that by blast
  have new: "length q = 1 \<and> subs n' = [] \<and> \<not> fetched n' \<and> \<not> fetching n' \<and>
      (pathIdx n' = [] \<or> pathIdx n' = q)"
    if "nodeAt (folders m') q = Some n'" "nodeAt (folders m) q = None" for q n'
    using N that by blast
  have "wellAddressed m'"
  proof (rule wellAddressedI [OF len])
    fix q n' assume n': "nodeAt (folders m') q = Some n'"
    show "pathIdx n' = q \<or> (length q = 1 \<and> pathIdx n' = [] \<and> subs n' = [])"
    proof (cases "nodeAt (folders m) q")
      case None
      from new [OF n' None] show ?thesis by auto
    next
      case (Some n)
      from old [OF Some] n' wellAddressed_nodeAt [OF wa Some] show ?thesis by auto
    qed
  qed
  moreover have "unfetchedEmpty (folders m')"
    unfolding unfetchedEmpty_def
  proof (intro allI impI)
    fix q n' assume n': "nodeAt (folders m') q = Some n'" and f: "\<not> fetched n'"
    show "subs n' = []"
    proof (cases "nodeAt (folders m) q")
      case None
      from new [OF n' None] show ?thesis by simp
    next
      case (Some n)
      from old [OF Some] n' f ue Some show ?thesis by (auto simp: unfetchedEmpty_def)
    qed
  qed
  moreover have "jobsPending (folders m') (jobs m')"
    unfolding jobsPending_def jb
  proof (intro conjI ballI impI)
    fix job assume "job \<in> set (jobs m)" "parentIndex job \<noteq> []"
    with jp obtain n where "nodeAt (folders m) (parentIndex job) = Some n" "fetching n" "\<not> fetched n"
      by (auto simp: jobsPending_def)
    with old [OF this(1)]
    show "\<exists>n. nodeAt (folders m') (parentIndex job) = Some n \<and> fetching n \<and> \<not> fetched n"
      by auto
  next
    from jp show "distinct (filter (\<lambda>p. p \<noteq> []) (map parentIndex (jobs m)))"
      by (simp add: jobsPending_def)
  qed
  ultimately show ?thesis by (simp add: consistent_def)
qed

lemma updateAt_Nil: "updateAt f p [] = []"
  by (cases p) simp_all

lemma nodeAt_updateAt_old:
  assumes "\<And>n. subs (f n) = subs n" and "nodeAt fs q = Some n"
  shows "\<exists>n'. nodeAt (updateAt f p fs) q = Some n' \<and>
     (if q = p then n' = f n
      else pathIdx n' = pathIdx n \<and> fetched n' = fetched n \<and> fetching n' = fetching n \<and>
           (subs n = [] \<longrightarrow> subs n' = []))"
  using assms(2) by (auto simp: nodeAt_updateAt [OF assms(1)] updateAt_Nil)

lemma nodeAt_updateAt_new:
  assumes "\<And>n. subs (f n) = subs n" and "nodeAt (updateAt f p fs) q = Some n'"
  shows "\<exists>n. nodeAt fs q = Some n \<and>
     (if q = p then n' = f n
      else pathIdx n' = pathIdx n \<and> fetched n' = fetched n \<and> fetching n' = fetching n \<and>
           (subs n = [] \<longrightarrow> subs n' = []))"
  using assms(2) by (auto simp: nodeAt_updateAt [OF assms(1)] updateAt_Nil split: if_splits)

lemma unfetchedEmpty_updateAt:
  assumes "\<And>n. subs (f n) = subs n" and "\<And>n. fetched (f n) = fetched n"
    and "unfetchedEmpty fs"
  shows "unfetchedEmpty (updateAt f p fs)"
  unfolding unfetchedEmpty_def
proof (intro allI impI)
  fix q n' assume n': "nodeAt (updateAt f p fs) q = Some n'" and nf: "\<not> fetched n'"
  from nodeAt_updateAt_new [OF assms(1) n'] obtain n where
    n: "nodeAt fs q = Some n" "if q = p then n' = f n
      else pathIdx n' = pathIdx n \<and> fetched n' = fetched n \<and> fetching n' = fetching n \<and>
           (subs n = [] \<longrightarrow> subs n' = [])" by blast
  from n(2) nf assms(1,2) have "\<not> fetched n" "subs n = [] \<longrightarrow> subs n' = []"
    by (auto split: if_splits)
  with assms(3) n(1) show "subs n' = []" by (auto simp: unfetchedEmpty_def)
qed

lemma jobsPending_updateAt:
  assumes "\<And>n. subs (f n) = subs n" and "\<And>n. fetched (f n) = fetched n"
    and "\<And>n. fetching (f n) = fetching n" and "jobsPending fs js"
  shows "jobsPending (updateAt f p fs) js"
  unfolding jobsPending_def
proof (intro conjI ballI impI)
  fix job assume "job \<in> set js" "parentIndex job \<noteq> []"
  with assms(4) obtain n where n: "nodeAt fs (parentIndex job) = Some n" "fetching n" "\<not> fetched n"
    by (auto simp: jobsPending_def)
  from nodeAt_updateAt_old [OF assms(1) n(1), of p] n(2,3) assms(2,3)
  show "\<exists>n. nodeAt (updateAt f p fs) (parentIndex job) = Some n \<and> fetching n \<and> \<not> fetched n"
    by (auto split: if_splits)
next
  from assms(4) show "distinct (filter (\<lambda>p. p \<noteq> []) (map parentIndex js))"
    by (simp add: jobsPending_def)
qed

lemma consistent_set_checked:
  assumes "consistent m"
  shows "consistent (m\<lparr>folders := updateAt (set_checked v) p (folders m)\<rparr>)"
  using assms
  by (simp add: consistent_def wellAddressed_set_checked unfetchedEmpty_updateAt
        jobsPending_updateAt)

lemma consistent_changed: "consistent m \<Longrightarrow> consistent (emit sigs (m\<lparr>dirty := d\<rparr>))"
  by (simp add: consistent_def emit_def wellAddressed_def)

lemma checkParent_Inr:
  assumes "checkParent rec v m idx = Inr m'"
  shows "\<exists>par m1 pinfo. parent m idx = Inr par \<and> infoForIndex m par = Inr (m1, pinfo) \<and>
     (m' = m1 \<or> (\<exists>v'. rec m1 par v' = Inr m'))"
proof -
  from assms obtain par where par: "parent m idx = Inr par"
    and r1: "bindE (infoForIndex m par) (\<lambda>(m, parentInfo).
       case parentInfo of
         None \<Rightarrow> Inr m
       | Some pp \<Rightarrow>
           (case nodeAt (folders m) pp of
              None \<Rightarrow> Inl NullPointer
            | Some pn \<Rightarrow>
                (case parentCall v pn of
                   None \<Rightarrow> Inr m
                 | Some v' \<Rightarrow> rec m par v'))) = Inr m'"
    unfolding checkParent_def bindE_Inr_iff by blast
  from r1 obtain a where a: "infoForIndex m par = Inr a"
    and r2: "(case a of (m, parentInfo) \<Rightarrow>
       case parentInfo of
         None \<Rightarrow> Inr m
       | Some pp \<Rightarrow>
           (case nodeAt (folders m) pp of
              None \<Rightarrow> Inl NullPointer
            | Some pn \<Rightarrow>
                (case parentCall v pn of
                   None \<Rightarrow> Inr m
                 | Some v' \<Rightarrow> rec m par v'))) = Inr m'"
    unfolding bindE_Inr_iff by blast
  obtain m1 pinfo where am: "a = (m1, pinfo)" by (cases a)
  have "m' = m1 \<or> (\<exists>v'. rec m1 par v' = Inr m')"
  proof (cases pinfo)
    case None
    with r2 show ?thesis unfolding am prod.case by simp
  next
    case (Some pp)
    show ?thesis
    proof (cases "nodeAt (folders m1) pp")
      case None
      with r2 Some show ?thesis unfolding am prod.case by simp
    next
      case pn: (Some pn)
      show ?thesis
      proof (cases "parentCall v pn")
        case None
        with r2 Some pn show ?thesis unfolding am prod.case by simp
      next
        case v': (Some v')
        with r2 Some pn have "rec m1 par v' = Inr m'" unfolding am prod.case by simp
        then show ?thesis by (intro disjI2 exI [of _ v'])
      qed
    qed
  qed
  with par a [unfolded am] show ?thesis by (intro exI [of _ par] exI [of _ m1] exI [of _ pinfo]) simp
qed

lemma consistent_checkParent:
  assumes "\<And>m idx v m'. consistent m \<Longrightarrow> rec m idx v = Inr m' \<Longrightarrow> consistent m'"
    and "consistent m" and "checkParent rec v m idx = Inr m'"
  shows "consistent m'"
proof -
  from checkParent_Inr [OF assms(3)] obtain par m1 pinfo where
    i: "infoForIndex m par = Inr (m1, pinfo)"
    and r: "m' = m1 \<or> (\<exists>v'. rec m1 par v' = Inr m')"
    by (elim exE conjE)
  from consistent_infoForIndex [OF assms(2) i] have c1: "consistent m1" .
  from r show ?thesis
  proof
    assume "m' = m1"
    with c1 show ?thesis by simp
  next
    assume "\<exists>v'. rec m1 par v' = Inr m'"
    then obtain v' where "rec m1 par v' = Inr m'" by (elim exE)
    from assms(1) [OF c1 this] show ?thesis .
  qed
qed

lemma setChildren_Suc_Inr:
  assumes "setChildren (Suc n) m idx info i v = Inr m'"
  shows "m' = m \<or> setChildren n m idx info (Suc i) v = Inr m' \<or>
     (\<exists>c m1. setData n m c v = Inr m1 \<and> setChildren n m1 idx info (Suc i) v = Inr m')"
proof (cases "nodeAt (folders m) info")
  case None
  with assms show ?thesis by (simp only: setChildren.simps option.case) simp
next
  case (Some node)
  show ?thesis
  proof (cases "i < length (subs node)")
    case False
    with assms Some show ?thesis by (simp only: setChildren.simps option.case if_False) simp
  next
    case i: True
    show ?thesis
    proof (cases "checked (subs node ! i) \<noteq> v")
      case False
      with assms Some i have "setChildren n m idx info (Suc i) v = Inr m'"
        by (simp only: setChildren.simps option.case if_True if_False)
      then show ?thesis by (intro disjI2 disjI1)
    next
      case True
      with assms Some i have "bindE (index m i idx) (\<lambda>c.
          bindE (setData n m c v) (\<lambda>m. setChildren n m idx info (Suc i) v)) = Inr m'"
        by (simp add: setChildren.simps)
      then obtain c where "bindE (setData n m c v) (\<lambda>m. setChildren n m idx info (Suc i) v)
          = Inr m'"
        unfolding bindE_Inr_iff by blast
      then obtain m1 where "setData n m c v = Inr m1"
        "setChildren n m1 idx info (Suc i) v = Inr m'"
        unfolding bindE_Inr_iff by blast
      then show ?thesis by blast
    qed
  qed
qed

lemma setData_Suc_Inr:
  assumes "setData (Suc n) m idx v = Inr m'"
  shows "\<exists>m0 info m3. infoForIndex m idx = Inr (m0, info) \<and>
     m' = emit [DirtyChanged, DataChanged idx] (m3\<lparr>dirty := True\<rparr>) \<and>
     (m3 = m0 \<or>
      (\<exists>ip m2. checkParent (setData n) v
           (m0\<lparr>folders := updateAt (set_checked v) ip (folders m0)\<rparr>) idx = Inr m2 \<and>
         (m3 = m2 \<or> setChildren n m2 idx ip 0 v = Inr m3)))"
proof -
  from assms obtain a where a: "infoForIndex m idx = Inr a"
    and r1: "(case a of (m, info) \<Rightarrow>
       bindE (case info of
              None \<Rightarrow> Inr m
            | Some ip \<Rightarrow>
                (case nodeAt (folders m) ip of
                   None \<Rightarrow> Inl NullPointer
                 | Some node \<Rightarrow>
                     if checked node = v then Inr m
                     else
                       let m = m\<lparr>folders := updateAt (set_checked v) ip (folders m)\<rparr> in
                       bindE (checkParent (setData n) v m idx) (\<lambda>m.
                         if v = PartiallyChecked then Inr m
                         else setChildren n m idx ip 0 v)))
       (\<lambda>m. Inr (emit [DirtyChanged, DataChanged idx] (m\<lparr>dirty := True\<rparr>)))) = Inr m'"
    unfolding setData.simps bindE_Inr_iff by blast
  obtain m0 info where am: "a = (m0, info)" by (cases a)
  from r1 obtain m3 where body: "(case info of
              None \<Rightarrow> Inr m0
            | Some ip \<Rightarrow>
                (case nodeAt (folders m0) ip of
                   None \<Rightarrow> Inl NullPointer
                 | Some node \<Rightarrow>
                     if checked node = v then Inr m0
                     else
                       let m = m0\<lparr>folders := updateAt (set_checked v) ip (folders m0)\<rparr> in
                       bindE (checkParent (setData n) v m idx) (\<lambda>m.
                         if v = PartiallyChecked then Inr m
                         else setChildren n m idx ip 0 v))) = Inr m3"
    and m': "Inr (emit [DirtyChanged, DataChanged idx] (m3\<lparr>dirty := True\<rparr>)) = Inr m'"
    unfolding am prod.case bindE_Inr_iff by blast
  have "m3 = m0 \<or>
      (\<exists>ip m2. checkParent (setData n) v
           (m0\<lparr>folders := updateAt (set_checked v) ip (folders m0)\<rparr>) idx = Inr m2 \<and>
         (m3 = m2 \<or> setChildren n m2 idx ip 0 v = Inr m3))"
  proof (cases info)
    case None
    with body show ?thesis by simp
  next
    case (Some ip)
    show ?thesis
    proof (cases "nodeAt (folders m0) ip")
      case None
      with body Some show ?thesis by simp
    next
      case node: (Some node)
      show ?thesis
      proof (cases "checked node = v")
        case True
        with body Some node show ?thesis by simp
      next
        case False
        with body Some node have "bindE (checkParent (setData n) v
            (m0\<lparr>folders := updateAt (set_checked v) ip (folders m0)\<rparr>) idx) (\<lambda>m.
              if v = PartiallyChecked then Inr m else setChildren n m idx ip 0 v) = Inr m3"
          by (simp add: Let_def)
        then obtain m2 where cp: "checkParent (setData n) v
            (m0\<lparr>folders := updateAt (set_checked v) ip (folders m0)\<rparr>) idx = Inr m2"
          and ch: "(if v = PartiallyChecked then Inr m2 else setChildren n m2 idx ip 0 v)
            = Inr m3"
          unfolding bindE_Inr_iff by blast
        from ch have "m3 = m2 \<or> setChildren n m2 idx ip 0 v = Inr m3"
          by (cases "v = PartiallyChecked") simp_all
        with cp show ?thesis by blast
      qed
    qed
  qed
  with a am m' show ?thesis
    by (intro exI [of _ m0] exI [of _ info] exI [of _ m3]) simp
qed

lemma consistent_setData_aux:
  "(\<forall>m idx v m'. consistent m \<longrightarrow> setData n m idx v = Inr m' \<longrightarrow> consistent m') \<and>
   (\<forall>m idx info i v m'. consistent m \<longrightarrow> setChildren n m idx info i v = Inr m' \<longrightarrow> consistent m')"
proof (induction n)
  case 0
  show ?case by (simp add: setData.simps setChildren.simps)
next
  case (Suc n)
  from Suc have ihD: "\<And>m idx v m'. consistent m \<Longrightarrow> setData n m idx v = Inr m' \<Longrightarrow> consistent m'"
    and ihC: "\<And>m idx info i v m'. consistent m \<Longrightarrow> setChildren n m idx info i v = Inr m'
        \<Longrightarrow> consistent m'"
    by blast+
  have d: "consistent m'" if c: "consistent m" and r: "setData (Suc n) m idx v = Inr m'"
    for m idx v m'
  proof -
    from setData_Suc_Inr [OF r] obtain m0 info m3 where
      i: "infoForIndex m idx = Inr (m0, info)"
      and m': "m' = emit [DirtyChanged, DataChanged idx] (m3\<lparr>dirty := True\<rparr>)"
      and body: "m3 = m0 \<or>
        (\<exists>ip m2. checkParent (setData n) v
           (m0\<lparr>folders := updateAt (set_checked v) ip (folders m0)\<rparr>) idx = Inr m2 \<and>
         (m3 = m2 \<or> setChildren n m2 idx ip 0 v = Inr m3))"
      by blast
    from consistent_infoForIndex [OF c i] have c0: "consistent m0" .
    from body have "consistent m3"
    proof
      assume "m3 = m0"
      with c0 show ?thesis by simp
    next
      assume "\<exists>ip m2. checkParent (setData n) v
           (m0\<lparr>folders := updateAt (set_checked v) ip (folders m0)\<rparr>) idx = Inr m2 \<and>
         (m3 = m2 \<or> setChildren n m2 idx ip 0 v = Inr m3)"
      then obtain ip m2 where
        cp: "checkParent (setData n) v
            (m0\<lparr>folders := updateAt (set_checked v) ip (folders m0)\<rparr>) idx = Inr m2"
        and ch: "m3 = m2 \<or> setChildren n m2 idx ip 0 v = Inr m3"
        by blast
      have c2: "consistent m2"
        by (rule consistent_checkParent [where rec = "setData n", OF ihD
              consistent_set_checked [OF c0] cp])
      from ch show ?thesis
      proof
        assume "m3 = m2"
        with c2 show ?thesis by simp
      next
        assume "setChildren n m2 idx ip 0 v = Inr m3"
        from ihC [OF c2 this] show ?thesis .
      qed
    qed
    then show ?thesis unfolding m' by (rule consistent_changed)
  qed
  have ch: "consistent m'" if c: "consistent m" and r: "setChildren (Suc n) m idx info i v = Inr m'"
    for m idx info i v m'
  proof -
    from setChildren_Suc_Inr [OF r] show ?thesis
    proof (elim disjE exE conjE)
      assume "m' = m"
      with c show ?thesis by simp
    next
      assume "setChildren n m idx info (Suc i) v = Inr m'"
      from ihC [OF c this] show ?thesis .
    next
      fix c1 m1 assume "setData n m c1 v = Inr m1" "setChildren n m1 idx info (Suc i) v = Inr m'"
      from ihC [OF ihD [OF c this(1)] this(2)] show ?thesis .
    qed
  qed
  from d ch show ?case by blast
qed

lemma consistent_setData: "consistent m \<Longrightarrow> setData n m idx v = Inr m' \<Longrightarrow> consistent m'"
  using consistent_setData_aux [of n] by blast

lemma consistent_setAccount: "consistent (setAccount m)"
proof -
  have "filter (\<lambda>p. p \<noteq> []) (map parentIndex (map (\<lambda>j. j\<lparr>parentIndex := []\<rparr>) js)) = []" for js
    by (induction js) simp_all
  then show ?thesis
    by (simp add: consistent_def setAccount_def emit_def wellAddressed_def unfetchedEmpty_def
          nodeAt_Nil jobsPending_def)
qed

lemma consistent_slotApplySelectiveSync: "consistent m \<Longrightarrow> consistent (slotApplySelectiveSync m)"
  by (simp add: slotApplySelectiveSync_def resetFolders_def consistent_setAccount)

lemma consistent_newModel: "consistent (newModel fm d)"
  by (simp add: consistent_def newModel_def wellAddressed_def unfetchedEmpty_def nodeAt_Nil
        jobsPending_def)

lemma addressedFrom_set_fetching: "addressedFrom a n \<Longrightarrow> addressedFrom a (set_fetching b n)"
  by (simp add: addressedFrom_iff)

lemma consistent_canFetchMore:
  assumes "consistent m" and "canFetchMore m idx = Inr (m', b)"
  shows "consistent m'"
proof -
  from assms(2) obtain a where a: "infoForIndex m idx = Inr a"
    and r: "(case a of (m, info) \<Rightarrow>
       case info of
         None \<Rightarrow> Inr (m, False)
       | Some ip \<Rightarrow>
           (case nodeAt (folders m) ip of
              None \<Rightarrow> Inl NullPointer
            | Some node \<Rightarrow> Inr (m, \<not> (fetched node \<or> fetching node)))) = Inr (m', b)"
    unfolding canFetchMore_def bindE_Inr_iff by blast
  obtain m0 info where am: "a = (m0, info)" by (cases a)
  from r have "m' = m0" unfolding am prod.case by (auto split: option.splits)
  with consistent_infoForIndex [OF assms(1) a [unfolded am]] show ?thesis by simp
qed

lemma consistent_fetchMore:
  assumes "consistent m" and "fetchMore m idx = Inr m'"
  shows "consistent m'"
proof -
  from assms(2) obtain a where a: "infoForIndex m idx = Inr a"
    and r: "(case a of (m, info) \<Rightarrow>
       case info of
         None \<Rightarrow> Inr m
       | Some ip \<Rightarrow>
           (case nodeAt (folders m) ip of
              None \<Rightarrow> Inl NullPointer
            | Some node \<Rightarrow>
                if fetched node \<or> fetching node then Inr m
                else
                  (case folder node of
                     None \<Rightarrow> Inl NullPointer
                   | Some f \<Rightarrow>
                       if f < length (folderMap m) then
                         Inr (m\<lparr>folders := updateAt (set_fetching True) ip (folders m),
                                jobs := jobs m @
                                  [\<lparr>jobPath = remotePath (folderMap m ! f) @ ''/'' @ path node,
                                    jobProperties = [''resourcetype'', ''quota-used-bytes''],
                                    parentIndex = idx\<rparr>]\<rparr>)
                       else Inl NullPointer))) = Inr m'"
    unfolding fetchMore_def bindE_Inr_iff by blast
  obtain m0 info where am: "a = (m0, info)" by (cases a)
  note i = a [unfolded am]
  from consistent_infoForIndex [OF assms(1) i] have c0: "consistent m0" .
  show ?thesis
  proof (cases "m' = m0")
    case True
    with c0 show ?thesis by simp
  next
    case False
    with r obtain ip node jp where info: "info = Some ip"
      and node: "nodeAt (folders m0) ip = Some node"
      and nf: "\<not> fetched node" "\<not> fetching node"
      and m': "m' = m0\<lparr>folders := updateAt (set_fetching True) ip (folders m0),
                      jobs := jobs m0 @ [\<lparr>jobPath = jp,
                          jobProperties = [''resourcetype'', ''quota-used-bytes''],
                          parentIndex = idx\<rparr>]\<rparr>"
      unfolding am prod.case by (auto split: option.splits if_splits)
    from infoForIndex_Some(1) [OF i [unfolded info]] have ip: "ip = idx" .
    from node ip have ne: "idx \<noteq> []" by auto
    from c0 have wa: "wellAddressed m0" and ue: "unfetchedEmpty (folders m0)"
      and jp: "jobsPending (folders m0) (jobs m0)" by (simp_all add: consistent_def)
    have wa': "wellAddressed m'"
      by (rule wellAddressed_updateAt [where f = "set_fetching True" and m = m0 and q = ip])
         (simp_all add: addressedFrom_set_fetching wa m')
    have ue': "unfetchedEmpty (folders m')"
      unfolding m' using ue by (simp add: unfetchedEmpty_updateAt)
    have notin: "idx \<notin> parentIndex ` set (jobs m0)"
    proof
      assume "idx \<in> parentIndex ` set (jobs m0)"
      then obtain job where "job \<in> set (jobs m0)" "parentIndex job = idx" by auto
      with jp ne obtain n where "nodeAt (folders m0) idx = Some n" "fetching n"
        by (auto simp: jobsPending_def)
      with node ip nf show False by simp
    qed
    have jp': "jobsPending (folders m') (jobs m')"
      unfolding jobsPending_def
    proof (intro conjI ballI impI)
      fix job assume job: "job \<in> set (jobs m')" and pne: "parentIndex job \<noteq> []"
      show "\<exists>n. nodeAt (folders m') (parentIndex job) = Some n \<and> fetching n \<and> \<not> fetched n"
      proof (cases "job \<in> set (jobs m0)")
        case True
        with jp pne obtain n where n: "nodeAt (folders m0) (parentIndex job) = Some n"
          "fetching n" "\<not> fetched n"
          by (auto simp: jobsPending_def)
        from True notin have "parentIndex job \<noteq> ip" unfolding ip by auto
        with nodeAt_updateAt_old [where f = "set_fetching True" and p = ip, OF _ n(1)] n(2,3)
        show ?thesis by (auto simp: m')
      next
        case False
        with job have "parentIndex job = idx" by (auto simp: m')
        with nodeAt_updateAt_same [OF node, of "set_fetching True"] nf ip show ?thesis
          by (simp add: m')
      qed
    next
      from jp notin ne show "distinct (filter (\<lambda>p. p \<noteq> []) (map parentIndex (jobs m')))"
        by (auto simp: jobsPending_def m')
    qed
    from wa' ue' jp' show ?thesis by (simp add: consistent_def)
  qed
qed

lemma nodeAt_leaves:
  assumes "\<forall>k<length cs. subs (cs ! k) = []" and "nodeAt cs r = Some n"
  shows "\<exists>k. r = [k] \<and> k < length cs \<and> n = cs ! k"
proof (cases r)
  case Nil
  with assms(2) show ?thesis by simp
next
  case (Cons k r')
  with assms(2) have k: "k < length cs" by (auto split: if_splits)
  show ?thesis
  proof (cases "r' = []")
    case True
    with Cons assms(2) k show ?thesis by simp
  next
    case False
    with Cons assms k show ?thesis by (simp add: nodeAt_Nil)
  qed
qed

lemma slotUpdateDirectories_after_infoForIndex:
  assumes "infoForIndex m (parentIndex job) = Inr (m2, Some ip)"
  shows "slotUpdateDirectories m job sizes l = slotUpdateDirectories m2 job sizes l"
proof -
  from infoForIndex_Some(1,2) [OF assms] have mat: "materialized m2 (parentIndex job)"
    and ip: "ip = parentIndex job" by simp_all
  from mat have "parentIndex job \<noteq> []" by (auto simp: materialized_def)
  with infoForIndex_materialized [OF mat] assms ip show ?thesis
    by (simp add: slotUpdateDirectories_def Let_def)
qed

lemma consistent_slotUpdateDirectories:
  assumes c: "consistent m"
    and target: "\<exists>n. nodeAt (folders m) (parentIndex job) = Some n \<and> \<not> fetched n"
    and single: "parentIndex job \<notin> parentIndex ` set (jobs m)"
    and run: "slotUpdateDirectories m job sizes l = Inr m'"
  shows "consistent m'"
proof -
  let ?idx = "parentIndex job"
  from target have ne: "?idx \<noteq> []" by auto
  obtain m2 pinfo where i0: "infoForIndex m ?idx = Inr (m2, pinfo)"
  proof (cases "infoForIndex m ?idx")
    case (Inl e)
    with run ne show ?thesis by (simp add: slotUpdateDirectories_def Let_def)
  next
    case (Inr a)
    with that show ?thesis by (cases a) simp
  qed
  obtain ip where pinfo: "pinfo = Some ip"
  proof (cases pinfo)
    case None
    with run ne i0 show ?thesis
      by (simp add: slotUpdateDirectories_def Let_def split: list.splits)
  next
    case (Some ip)
    with that show ?thesis .
  qed
  obtain first list1 where l: "l = first # list1"
  proof (cases l)
    case Nil
    with run ne i0 show ?thesis by (simp add: slotUpdateDirectories_def Let_def)
  next
    case (Cons first list1)
    with that show ?thesis .
  qed
  note i = i0 [unfolded pinfo]
  from infoForIndex_Some(1,2,4) [OF i] have ip: "ip = ?idx" and mat: "materialized m2 ?idx"
    and jobs2: "jobs m2 = jobs m" by simp_all
  from consistent_infoForIndex [OF c i] have c2: "consistent m2" .
  then have wa: "wellAddressed m2" and ue: "unfetchedEmpty (folders m2)"
    and jp: "jobsPending (folders m2) (jobs m2)" by (simp_all add: consistent_def)
  from target obtain n where n: "nodeAt (folders m) ?idx = Some n" "\<not> fetched n" by blast
  from infoForIndex_nodes [OF i] n(1) obtain node where
    node: "nodeAt (folders m2) ?idx = Some node" and "fetched node = fetched n" by blast
  with n(2) have nf: "\<not> fetched node" by simp
  with ue node have leaf: "subs node = []" by (auto simp: unfetchedEmpty_def)
  have pidx: "pathIdx node = ?idx"
    using wellAddressed_nodeAt [OF wa node] mat node
    by (auto simp: materialized_def)
  from slotUpdateDirectories_after_infoForIndex [OF i] run l
  have run2: "slotUpdateDirectories m2 job sizes (first # list1) = Inr m'" by simp
  from slotUpdateDirectories_Inr [OF mat node run2] obtain f node' where
    app: "appendSubs (folderMap m2) sizes (pathToRemove (remoteUrl (folderMap m2 ! f)))
             (set_fetching False (set_fetched True node)) 0 list1 = Inr node'"
    and m': "m' = emit [RowsInserted ?idx 0 (length list1)]
                  (m2\<lparr>folders := updateAt (\<lambda>_. node') ?idx (folders m2)\<rparr>)"
    by blast
  define n0 where "n0 = set_fetching False (set_fetched True node)"
  from appendSubs_Inr [OF app] leaf obtain cs where
    node': "node' = set_subs cs n0"
    and cs: "\<forall>k<length list1. newSubFolderInfo (folderMap m2) sizes
          (pathToRemove (remoteUrl (folderMap m2 ! f))) n0 (0 + k) (list1 ! k)
          = Inr (Some (cs ! k))"
    and len: "length cs = length list1"
    unfolding n0_def by auto
  have child: "pathIdx (cs ! k) = ?idx @ [k] \<and> subs (cs ! k) = [] \<and> \<not> fetched (cs ! k) \<and>
      \<not> fetching (cs ! k)" if "k < length cs" for k
  proof -
    from cs that len have new: "newSubFolderInfo (folderMap m2) sizes
          (pathToRemove (remoteUrl (folderMap m2 ! f))) n0 k (list1 ! k)
          = Inr (Some (cs ! k))" by simp
    from newSubFolderInfo_Some(4-7) [OF new] pidx show ?thesis by (simp add: n0_def)
  qed
  then have leaves: "\<forall>k<length cs. subs (cs ! k) = []" by simp
  have fm': "folders m' = updateAt (\<lambda>_. node') ?idx (folders m2)"
    and jobs': "jobs m' = jobs m" and map': "folderMap m' = folderMap m2"
    by (simp_all add: m' emit_def jobs2)
  have at_self: "nodeAt (folders m') ?idx = Some node'"
    unfolding fm' using nodeAt_updateAt_same [OF node] by simp
  have at_above: "nodeAt (folders m') q =
      map_option (\<lambda>n. set_subs (updateAt (\<lambda>_. node') (drop (length q) ?idx) (subs n)) n)
        (nodeAt (folders m2) q)" if "strict_prefix q ?idx" for q
    unfolding fm' by (rule nodeAt_updateAt_above [OF that])
  have at_below: "nodeAt (folders m') (?idx @ r) = nodeAt cs r" if "r \<noteq> []" for r
    unfolding fm' using nodeAt_updateAt_ext [OF node that, of "\<lambda>_. node'"]
    by (simp add: node')
  have none_below: "nodeAt (folders m2) (?idx @ r) = None" if "r \<noteq> []" for r
    using nodeAt_append [OF node that] leaf by (simp add: nodeAt_Nil)
  have at_other: "nodeAt (folders m') q = nodeAt (folders m2) q"
    if "\<not> prefix q ?idx" "\<not> prefix ?idx q" for q
    unfolding fm' by (rule nodeAt_updateAt_other [OF that])
  have cases: "q = ?idx \<or> strict_prefix q ?idx \<or> (\<exists>r. r \<noteq> [] \<and> q = ?idx @ r) \<or>
      (\<not> prefix q ?idx \<and> \<not> prefix ?idx q)" for q
    by (auto simp: strict_prefix_def prefix_def)
  have point: "(pathIdx n' = q \<or> (length q = 1 \<and> pathIdx n' = [] \<and> subs n' = [])) \<and>
      (\<not> fetched n' \<longrightarrow> subs n' = [])" if q: "nodeAt (folders m') q = Some n'" for q n'
  proof -
    from cases [of q] show ?thesis
    proof (elim disjE exE conjE)
      assume qi: "q = ?idx"
      with q at_self have "n' = set_subs cs n0" by (simp add: node')
      with pidx qi show ?thesis by (simp add: n0_def)
    next
      assume sp: "strict_prefix q ?idx"
      with q at_above [OF sp] obtain n2 where n2: "nodeAt (folders m2) q = Some n2"
        and n': "n' = set_subs (updateAt (\<lambda>_. node') (drop (length q) ?idx) (subs n2)) n2"
        by auto
      from wellAddressed_nodeAt [OF wa n2] ue n2 n' show ?thesis
        by (auto simp: unfetchedEmpty_def updateAt_Nil)
    next
      fix r assume r: "r \<noteq> []" "q = ?idx @ r"
      with q at_below [OF r(1)] have "nodeAt cs r = Some n'" by simp
      from nodeAt_leaves [OF leaves this] obtain k where "r = [k]" "k < length cs" "n' = cs ! k"
        by blast
      with child [of k] r(2) show ?thesis by simp
    next
      assume o: "\<not> prefix q ?idx" "\<not> prefix ?idx q"
      with q at_other have n2: "nodeAt (folders m2) q = Some n'" by simp
      from wellAddressed_nodeAt [OF wa n2] ue n2 show ?thesis
        by (auto simp: unfetchedEmpty_def)
    qed
  qed
  have "wellAddressed m'"
  proof (rule wellAddressedI)
    from wa show "length (folders m') \<le> length (folderMap m')"
      by (simp add: fm' map' wellAddressed_def)
  next
    fix q n' assume "nodeAt (folders m') q = Some n'"
    from point [OF this] show "pathIdx n' = q \<or> (length q = 1 \<and> pathIdx n' = [] \<and> subs n' = [])"
      by simp
  qed
  moreover have "unfetchedEmpty (folders m')"
    unfolding unfetchedEmpty_def using point by blast
  moreover have "jobsPending (folders m') (jobs m')"
    unfolding jobsPending_def jobs'
  proof (intro conjI ballI impI)
    fix job' assume job': "job' \<in> set (jobs m)" and pne: "parentIndex job' \<noteq> []"
    let ?p = "parentIndex job'"
    from jp job' pne jobs2 obtain n2 where n2: "nodeAt (folders m2) ?p = Some n2" "fetching n2"
      "\<not> fetched n2" by (auto simp: jobsPending_def)
    from job' have "?p \<in> parentIndex ` set (jobs m)" by (rule imageI)
    with single have neq: "?p \<noteq> ?idx" by metis
    from cases [of ?p] show "\<exists>n. nodeAt (folders m') ?p = Some n \<and> fetching n \<and> \<not> fetched n"
    proof (elim disjE exE conjE)
      assume "?p = ?idx"
      with neq show ?thesis by simp
    next
      assume sp: "strict_prefix ?p ?idx"
      from at_above [OF sp] n2 show ?thesis by simp
    next
      fix r assume r: "r \<noteq> []" "?p = ?idx @ r"
      with none_below [OF r(1)] n2(1) show ?thesis by simp
    next
      assume o: "\<not> prefix ?p ?idx" "\<not> prefix ?idx ?p"
      with at_other n2 show ?thesis by simp
    qed
  next
    from jp jobs2 show "distinct (filter (\<lambda>p. p \<noteq> []) (map parentIndex (jobs m)))"
      by (simp add: jobsPending_def)
  qed
  ultimately show ?thesis by (simp add: consistent_def)
qed

lemma remove_nth_distinct:
  assumes "distinct (filter P (map f xs))" and "j < length xs"
  shows "distinct (filter P (map f (take j xs @ drop (Suc j) xs)))"
    and "P (f (xs ! j)) \<Longrightarrow> f (xs ! j) \<notin> f ` set (take j xs @ drop (Suc j) xs)"
proof -
  have xs: "xs = take j xs @ xs ! j # drop (Suc j) xs"
    using assms(2) by (rule id_take_nth_drop)
  have "distinct (filter P (map f (take j xs @ xs ! j # drop (Suc j) xs)))"
    using assms(1) xs by simp
  then have d: "distinct (filter P (map f (take j xs)) @ filter P (map f (drop (Suc j) xs)))"
    and n: "P (f (xs ! j)) \<Longrightarrow> f (xs ! j) \<notin> set (filter P (map f (take j xs))) \<and>
        f (xs ! j) \<notin> set (filter P (map f (drop (Suc j) xs)))"
    by (auto split: if_splits)
  from d show "distinct (filter P (map f (take j xs @ drop (Suc j) xs)))" by simp
  assume p: "P (f (xs ! j))"
  from n [OF p] p show "f (xs ! j) \<notin> f ` set (take j xs @ drop (Suc j) xs)"
    by (auto simp: image_iff)
qed

lemma consistent_jobFinished:
  assumes "consistent m" and "jobFinished m j r = Inr m'"
  shows "consistent m'"
proof (cases "j < length (jobs m)")
  case False
  with assms show ?thesis by (simp add: jobFinished_def)
next
  case j: True
  define js where "js = take j (jobs m) @ drop (Suc j) (jobs m)"
  define m1 where "m1 = m\<lparr>jobs := js\<rparr>"
  let ?job = "jobs m ! j"
  from assms(1) have wa: "wellAddressed m" and ue: "unfetchedEmpty (folders m)"
    and jp: "jobsPending (folders m) (jobs m)" by (simp_all add: consistent_def)
  have sub: "set js \<subseteq> set (jobs m)"
    unfolding js_def using set_take_subset [of j "jobs m"] set_drop_subset [of "Suc j" "jobs m"]
    by auto
  from jp have dist: "distinct (filter (\<lambda>p. p \<noteq> []) (map parentIndex (jobs m)))"
    by (simp add: jobsPending_def)
  have "jobsPending (folders m) js"
    unfolding jobsPending_def
  proof (intro conjI ballI impI)
    fix job assume "job \<in> set js" "parentIndex job \<noteq> []"
    with sub jp show "\<exists>n. nodeAt (folders m) (parentIndex job) = Some n \<and> fetching n \<and> \<not> fetched n"
      by (auto simp: jobsPending_def)
  next
    show "distinct (filter (\<lambda>p. p \<noteq> []) (map parentIndex js))"
      unfolding js_def by (rule remove_nth_distinct(1) [OF dist j])
  qed
  with wa ue have c1: "consistent m1"
    by (simp add: consistent_def m1_def wellAddressed_def)
  show ?thesis
  proof (cases r)
    case FinishedWithError
    with assms(2) j have "m' = m1" by (simp add: jobFinished_def m1_def js_def Let_def)
    with c1 show ?thesis by simp
  next
    case (DirectoryListingSubfolders l sizes)
    with assms(2) j have run: "slotUpdateDirectories m1 ?job sizes l = Inr m'"
      by (simp add: jobFinished_def m1_def js_def Let_def)
    show ?thesis
    proof (cases "parentIndex ?job = []")
      case True
      with run have "m' = m1" by (simp add: slotUpdateDirectories_def Let_def)
      with c1 show ?thesis by simp
    next
      case False
      from j have "?job \<in> set (jobs m)" by simp
      with jp False have target:
        "\<exists>n. nodeAt (folders m1) (parentIndex ?job) = Some n \<and> \<not> fetched n"
        by (auto simp: jobsPending_def m1_def)
      have single: "parentIndex ?job \<notin> parentIndex ` set (jobs m1)"
        using remove_nth_distinct(2) [OF dist j] False by (simp add: m1_def js_def)
      from consistent_slotUpdateDirectories [OF c1 target single run] show ?thesis .
    qed
  qed
qed

lemma consistent_perform:
  assumes "consistent m" and "perform op m = Inr m'"
  shows "consistent m'"
proof (cases op)
  case (InfoForIndex idx)
  with assms(2) obtain a where a: "infoForIndex m idx = Inr a" "(case a of (m, info) \<Rightarrow> Inr m) = Inr m'"
    by (auto simp: bindE_Inr_iff)
  then obtain info where "infoForIndex m idx = Inr (m', info)" by (cases a) auto
  from consistent_infoForIndex [OF assms(1) this] show ?thesis .
next
  case (CanFetchMore idx)
  with assms(2) obtain a where a: "canFetchMore m idx = Inr a" "(case a of (m, b) \<Rightarrow> Inr m) = Inr m'"
    by (auto simp: bindE_Inr_iff)
  then obtain b where "canFetchMore m idx = Inr (m', b)" by (cases a) auto
  from consistent_canFetchMore [OF assms(1) this] show ?thesis .
next
  case (FetchMore idx)
  with assms show ?thesis by (auto intro: consistent_fetchMore)
next
  case (JobFinished j r)
  with assms show ?thesis by (auto intro: consistent_jobFinished)
next
  case (SetData n idx v)
  with assms show ?thesis by (auto intro: consistent_setData)
next
  case SetAccount
  with assms(2) show ?thesis by (auto simp: consistent_setAccount)
next
  case SlotApplySelectiveSync
  with assms show ?thesis by (auto simp: consistent_slotApplySelectiveSync)
qed

lemma consistent_run: "consistent m \<Longrightarrow> run ops m = Inr m' \<Longrightarrow> consistent m'"
proof (induction ops arbitrary: m)
  case Nil
  then show ?case by simp
next
  case (Cons op ops)
  from Cons.prems(2) obtain m1 where "perform op m = Inr m1" "run ops m1 = Inr m'"
    by (auto simp: bindE_Inr_iff)
  from Cons.IH [OF consistent_perform [OF Cons.prems(1) this(1)] this(2)] show ?case .
qed

section \<open>Properties\<close>

text \<open>
  C10 (as the code has it): for a non-empty relative path, \<open>concatUrlPath\<close> returns the base
  URL with its path replaced by the base path without one slash at its end, if it has one, a
  slash, and the relative path without one slash at its start, if it has one: one slash on
  each side is absorbed, a missing one is inserted. When the base path does not end with two
  slashes and the relative path does not start with two, this is the join with exactly one
  slash at the junction. Scheme, host and port are those of the base URL. For an empty
  relative path the path is the base URL's path.
\<close>

theorem concatUrlPath_junction:
  "(concatPath \<noteq> [] \<longrightarrow>
      url_path (concatUrlPath url concatPath q) =
        (if endsWith (url_path url) CHR ''/'' then butlast (url_path url) else url_path url)
        @ ''/'' @
        (if startsWith concatPath CHR ''/'' then tl concatPath else concatPath))
   \<and> (concatPath \<noteq> [] \<and> \<not> suffix ''//'' (url_path url) \<and> \<not> prefix ''//'' concatPath \<longrightarrow>
        url_path (concatUrlPath url concatPath q) = joinedByOneSlash (url_path url) concatPath)
   \<and> (concatPath = [] \<longrightarrow> url_path (concatUrlPath url concatPath q) = url_path url)
   \<and> url_scheme (concatUrlPath url concatPath q) = url_scheme url
   \<and> url_host (concatUrlPath url concatPath q) = url_host url
   \<and> url_port (concatUrlPath url concatPath q) = url_port url"
proof -
  have chop1: "chop (Suc 0) p = butlast p" for p
    by (simp add: chop_def butlast_conv_take)
  have snoc: "endsWith p CHR ''/'' \<Longrightarrow> butlast p @ ''/'' = p" for p
    by (auto simp: endsWith_def dest: append_butlast_last_id)
  have cons: "startsWith c CHR ''/'' \<Longrightarrow> CHR ''/'' # tl c = c" for c
    by (cases c) (auto simp: startsWith_def)
  have one: "concatPath \<noteq> [] \<longrightarrow>
      url_path (concatUrlPath url concatPath q) =
        (if endsWith (url_path url) CHR ''/'' then butlast (url_path url) else url_path url)
        @ ''/'' @
        (if startsWith concatPath CHR ''/'' then tl concatPath else concatPath)"
    using snoc [of "url_path url"] cons [of concatPath]
    by (auto simp: concatUrlPath_def Let_def setPath_def setQueryItems_def chop1)
  have rest: "(concatPath = [] \<longrightarrow> url_path (concatUrlPath url concatPath q) = url_path url)
   \<and> url_scheme (concatUrlPath url concatPath q) = url_scheme url
   \<and> url_host (concatUrlPath url concatPath q) = url_host url
   \<and> url_port (concatUrlPath url concatPath q) = url_port url"
    by (auto simp: concatUrlPath_def Let_def setPath_def setQueryItems_def)
  from one have "concatPath \<noteq> [] \<and> \<not> suffix ''//'' (url_path url) \<and> \<not> prefix ''//'' concatPath \<longrightarrow>
        url_path (concatUrlPath url concatPath q) = joinedByOneSlash (url_path url) concatPath"
    by (simp add: joinedByOneSlash_def strip_trailing_once strip_leading_once)
  with one rest show ?thesis by blast
qed

theorem concatUrlPath_junction_witness:
  "url_path (concatUrlPath
      \<lparr>url_scheme = ''https'', url_host = ''h'', url_port = 443, url_path = ''/dav/'',
       url_queryItems = []\<rparr> ''/a'' []) = ''/dav/a''
   \<and> joinedByOneSlash ''/dav/'' ''/a'' = ''/dav/a''
   \<and> url_path (concatUrlPath
      \<lparr>url_scheme = ''https'', url_host = ''h'', url_port = 443, url_path = ''/dav'',
       url_queryItems = []\<rparr> ''a'' []) = ''/dav/a''
   \<and> joinedByOneSlash ''/dav'' ''a'' = ''/dav/a''
   \<and> url_path (concatUrlPath
      \<lparr>url_scheme = ''https'', url_host = ''h'', url_port = 443, url_path = ''/dav/'',
       url_queryItems = []\<rparr> [] []) = ''/dav/''"
  using concatUrlPath_junction [of "''/a''"
      "\<lparr>url_scheme = ''https'', url_host = ''h'', url_port = 443, url_path = ''/dav/'',
        url_queryItems = []\<rparr>" "[]"]
    concatUrlPath_junction [of "''a''"
      "\<lparr>url_scheme = ''https'', url_host = ''h'', url_port = 443, url_path = ''/dav'',
        url_queryItems = []\<rparr>" "[]"]
    concatUrlPath_junction [of "[]"
      "\<lparr>url_scheme = ''https'', url_host = ''h'', url_port = 443, url_path = ''/dav/'',
        url_queryItems = []\<rparr>" "[]"]
  by (simp add: endsWith_def startsWith_def joinedByOneSlash_def suffix_def)

text \<open>
  Not for every input is there exactly one slash at the junction: the code removes or inserts
  at most one character, so a base path that ends with two slashes, or a relative path that
  starts with two, keeps a doubled slash.
\<close>

theorem double_slash_counterexample:
  "url_path (concatUrlPath
      \<lparr>url_scheme = ''https'', url_host = ''h'', url_port = 443, url_path = ''/dav//'',
       url_queryItems = []\<rparr> ''a'' []) = ''/dav//a''
   \<and> joinedByOneSlash ''/dav//'' ''a'' = ''/dav/a''
   \<and> url_path (concatUrlPath
      \<lparr>url_scheme = ''https'', url_host = ''h'', url_port = 443, url_path = ''/dav/'',
       url_queryItems = []\<rparr> ''//a'' []) = ''/dav//a''
   \<and> joinedByOneSlash ''/dav/'' ''//a'' = ''/dav/a''
   \<and> url_path (concatUrlPath
      \<lparr>url_scheme = ''https'', url_host = ''h'', url_port = 443, url_path = ''/dav//'',
       url_queryItems = []\<rparr> ''a'' []) \<noteq> joinedByOneSlash ''/dav//'' ''a''"
  by (simp add: concatUrlPath_def Let_def setPath_def endsWith_def startsWith_def chop_def
        joinedByOneSlash_def)

text \<open>
  C1: \<open>createBlackList\<close> on a node returns the one-element list of the node's path when the
  node is \<open>Unchecked\<close>, whatever its children are; the empty list when it is \<open>Checked\<close>;
  the concatenation of the children's lists, in child order, when it is
  \<open>PartiallyChecked\<close> and fetched; and, when it is \<open>PartiallyChecked\<close> and not fetched,
  the entries of the old black list that start with the node's path, in their order.
  A tree whose nodes are all \<open>Checked\<close> gives the empty list.
\<close>

theorem createBlackList_cases:
  "(checked node = Unchecked \<longrightarrow> createBlackList (Some node) old = [path node])
   \<and> (checked node = Checked \<longrightarrow> createBlackList (Some node) old = [])
   \<and> (checked node = PartiallyChecked \<and> fetched node \<longrightarrow>
        createBlackList (Some node) old =
          concat (map (\<lambda>s. createBlackList (Some s) old) (subs node)))
   \<and> (checked node = PartiallyChecked \<and> \<not> fetched node \<longrightarrow>
        createBlackList (Some node) old = filter (\<lambda>it. prefix (path node) it) old)
   \<and> (allChecked node \<longrightarrow> createBlackList (Some node) old = [])"
  by (cases node) simp

theorem createBlackList_cases_witness:
  "createBlackList (Some (SubFolderInfo None ''a'' ''a/'' [0, 0]
        [SubFolderInfo None ''b'' ''a/b/'' [0, 0, 0] [] 0 False False Checked] 0 True False
        Unchecked)) [''x/''] = [''a/'']
   \<and> createBlackList (Some (SubFolderInfo None ''a'' ''a/'' [0, 0] [] 0 False False Checked))
        [''a/b/''] = []
   \<and> createBlackList (Some (SubFolderInfo None ''a'' ''a/'' [0, 0]
        [SubFolderInfo None ''b'' ''a/b/'' [0, 0, 0] [] 0 False False Unchecked,
         SubFolderInfo None ''c'' ''a/c/'' [0, 0, 1] [] 0 False False Checked,
         SubFolderInfo None ''d'' ''a/d/'' [0, 0, 2] [] 0 False False Unchecked] 0 True False
        PartiallyChecked)) [''x/''] = [''a/b/'', ''a/d/'']
   \<and> createBlackList (Some (SubFolderInfo None ''docs'' ''docs/'' [0, 0] [] 0 False False
        PartiallyChecked)) [''docs/old/'', ''photos/'', ''docs/old/archive/'']
      = [''docs/old/'', ''docs/old/archive/'']"
  using createBlackList_cases [of "SubFolderInfo None ''a'' ''a/'' [0, 0]
        [SubFolderInfo None ''b'' ''a/b/'' [0, 0, 0] [] 0 False False Checked] 0 True False
        Unchecked" "[''x/'']"]
    createBlackList_cases [of "SubFolderInfo None ''a'' ''a/'' [0, 0] [] 0 False False Checked"
        "[''a/b/'']"]
    createBlackList_cases [of "SubFolderInfo None ''a'' ''a/'' [0, 0]
        [SubFolderInfo None ''b'' ''a/b/'' [0, 0, 0] [] 0 False False Unchecked,
         SubFolderInfo None ''c'' ''a/c/'' [0, 0, 1] [] 0 False False Checked,
         SubFolderInfo None ''d'' ''a/d/'' [0, 0, 2] [] 0 False False Unchecked] 0 True False
        PartiallyChecked" "[''x/'']"]
    createBlackList_cases [of "SubFolderInfo None ''docs'' ''docs/'' [0, 0] [] 0 False False
        PartiallyChecked" "[''docs/old/'', ''photos/'', ''docs/old/archive/'']"]
  by simp

text \<open>
  C4 (as the code has it): when \<open>slotUpdateDirectories\<close> returns for a node that is there,
  the node has one new child for each listed path after the first, in the order of the
  list, and each of them is \<open>Unchecked\<close> when the node is \<open>Unchecked\<close>; otherwise it is
  \<open>Unchecked\<close> when the black list of the folder of the node's root holds the child's path
  or \<open>/\<close>; otherwise it is \<open>PartiallyChecked\<close> when an entry of the black list starts with
  the child's path (the child's path is a prefix of the entry); otherwise it is \<open>Checked\<close>,
  the state of a new node.
\<close>

theorem slotUpdateDirectories_checked:
  assumes "wellAddressed m" and "materialized m (parentIndex job)"
    and "nodeAt (folders m) (parentIndex job) = Some node"
    and "slotUpdateDirectories m job sizes (first # list1) = Inr m'"
  shows "\<exists>children.
      nodeAt (folders m') (parentIndex job) =
        Some (set_subs (subs node @ children) (set_fetching False (set_fetched True node))) \<and>
      length children = length list1 \<and>
      (\<forall>k<length list1.
         checked (children ! k) =
           (if checked node = Unchecked then Unchecked
            else if path (children ! k)
                      \<in> set (selectiveSyncBlackList (folderMap m ! hd (parentIndex job)))
                    \<or> ''/'' \<in> set (selectiveSyncBlackList (folderMap m ! hd (parentIndex job)))
              then Unchecked
            else if \<exists>str\<in>set (selectiveSyncBlackList (folderMap m ! hd (parentIndex job))).
                      prefix (path (children ! k)) str
              then PartiallyChecked
            else Checked))"
proof -
  from slotUpdateDirectories_Inr [OF assms(2-4)] obtain f node' where
    f: "folder node = Some f" "f < length (folderMap m)"
    and app: "appendSubs (folderMap m) sizes (pathToRemove (remoteUrl (folderMap m ! f)))
             (set_fetching False (set_fetched True node)) 0 list1 = Inr node'"
    and m': "m' = emit [RowsInserted (parentIndex job) 0 (length list1)]
                  (m\<lparr>folders := updateAt (\<lambda>_. node') (parentIndex job) (folders m)\<rparr>)"
    by blast
  define ptr where "ptr = pathToRemove (remoteUrl (folderMap m ! f))"
  define n0 where "n0 = set_fetching False (set_fetched True node)"
  from appendSubs_Inr [OF app] obtain cs where
    cs: "node' = set_subs (subs n0 @ cs) n0" "length cs = length list1"
      "\<forall>k<length list1. newSubFolderInfo (folderMap m) sizes ptr n0 (0 + k) (list1 ! k)
          = Inr (Some (cs ! k))"
    unfolding ptr_def n0_def by blast
  have node: "nodeAt (folders m') (parentIndex job) = Some (set_subs (subs node @ cs) n0)"
    using nodeAt_updateAt_same [OF assms(3), of "\<lambda>_. node'"] cs(1)
    by (simp add: m' emit_def n0_def)
  have pidx: "pathIdx node = parentIndex job"
  proof (cases "2 \<le> length (parentIndex job)")
    case True
    from wellAddressed_pathIdx [OF assms(1,3) True] show ?thesis .
  next
    case False
    with assms(3) obtain r where r: "parentIndex job = [r]"
      by (cases "parentIndex job"; cases "tl (parentIndex job)") auto
    with assms(2,3) have ne: "pathIdx node \<noteq> []" and at: "r < length (folders m)"
      "node = folders m ! r"
      by (auto simp: materialized_def split: if_splits)
    with assms(1) have "addressedFrom [r] node"
      by (auto simp: wellAddressed_def rootsAddressed_iff)
    with r show ?thesis by (simp add: addressedFrom_iff)
  qed
  have each: "checked (cs ! k) =
           (if checked node = Unchecked then Unchecked
            else if path (cs ! k)
                      \<in> set (selectiveSyncBlackList (folderMap m ! hd (parentIndex job)))
                    \<or> ''/'' \<in> set (selectiveSyncBlackList (folderMap m ! hd (parentIndex job)))
              then Unchecked
            else if \<exists>str\<in>set (selectiveSyncBlackList (folderMap m ! hd (parentIndex job))).
                      prefix (path (cs ! k)) str
              then PartiallyChecked
            else Checked)" if k: "k < length list1" for k
  proof -
    from cs(3) k have new: "newSubFolderInfo (folderMap m) sizes ptr n0 k (list1 ! k)
          = Inr (Some (cs ! k))" by simp
    from newSubFolderInfo_state [OF new] pidx show ?thesis by (simp add: n0_def)
  qed
  from node cs(2) each show ?thesis unfolding n0_def by blast
qed

theorem slotUpdateDirectories_checked_witness:
  "wellAddressed exFetching \<and> materialized exFetching (parentIndex (jobs exFetching ! 0)) \<and>
   nodeAt (folders exFetching) (parentIndex (jobs exFetching ! 0)) = Some exRoot \<and>
   slotUpdateDirectories exFetching (jobs exFetching ! 0) noSizes
       [''/dav/'', ''/dav/photos/2020/'', ''/dav/docs/'', ''/dav/photos/'']
     = Inr (emit [RowsInserted [0] 0 3]
         (exFetching\<lparr>folders :=
            [SubFolderInfo (Some 0) ''home'' ''/'' [0]
               [SubFolderInfo (Some 0) ''2020'' ''photos/2020/'' [0, 0] [] 0 False False Unchecked,
                SubFolderInfo (Some 0) ''docs'' ''docs/'' [0, 1] [] 0 False False Checked,
                SubFolderInfo (Some 0) ''photos'' ''photos/'' [0, 2] [] 0 False False
                  PartiallyChecked]
               0 True False Checked]\<rparr>))"
proof -
  have wa: "wellAddressed exFetching" by code_simp
  have mat: "materialized exFetching (parentIndex (jobs exFetching ! 0))"
    by (simp add: materialized_def exFetching_def exModel_def exRoot_def)
  have node: "nodeAt (folders exFetching) (parentIndex (jobs exFetching ! 0)) = Some exRoot"
    by (simp add: exFetching_def exModel_def)
  have run: "slotUpdateDirectories exFetching (jobs exFetching ! 0) noSizes
       [''/dav/'', ''/dav/photos/2020/'', ''/dav/docs/'', ''/dav/photos/'']
     = Inr (emit [RowsInserted [0] 0 3]
         (exFetching\<lparr>folders :=
            [SubFolderInfo (Some 0) ''home'' ''/'' [0]
               [SubFolderInfo (Some 0) ''2020'' ''photos/2020/'' [0, 0] [] 0 False False Unchecked,
                SubFolderInfo (Some 0) ''docs'' ''docs/'' [0, 1] [] 0 False False Checked,
                SubFolderInfo (Some 0) ''photos'' ''photos/'' [0, 2] [] 0 False False
                  PartiallyChecked]
               0 True False Checked]\<rparr>))"
    by (simp add: slotUpdateDirectories_def exFetching_def exModel_def exFolder_def exRoot_def
          infoForIndex_def newSubFolderInfo_def noSizes_def sizeOf_def pathToRemove_def
          endsWith_def removeStr.simps splitSkipEmptyParts_def initialChecked_def
          SubFolderInfo0_def Let_def emit_def set_subs_def set_fetched_def set_fetching_def)
  from slotUpdateDirectories_checked [OF wa mat node run] wa mat node run show ?thesis by simp
qed

text \<open>
  The claim reads the third case the other way round (an entry that is a prefix of the
  child's path). Here the only entry is \<open>photos/2020/\<close>, which is neither equal to nor a
  prefix of \<open>photos/\<close>, the parent is \<open>Checked\<close>, and the slot gives the child \<open>photos/\<close> the
  state \<open>PartiallyChecked\<close>.
\<close>

theorem initial_state_counterexample:
  "slotUpdateDirectories exFetching (jobs exFetching ! 0) noSizes [''/dav/'', ''/dav/photos/'']
     = Inr (emit [RowsInserted [0] 0 1]
         (exFetching\<lparr>folders :=
            [SubFolderInfo (Some 0) ''home'' ''/'' [0]
               [SubFolderInfo (Some 0) ''photos'' ''photos/'' [0, 0] [] 0 False False
                  PartiallyChecked]
               0 True False Checked]\<rparr>))
   \<and> checked exRoot = Checked
   \<and> selectiveSyncBlackList (folderMap exFetching ! 0) = [''photos/2020/'']
   \<and> \<not> prefix ''photos/2020/'' ''photos/''"
  by (simp add: slotUpdateDirectories_def exFetching_def exModel_def exFolder_def exRoot_def
          infoForIndex_def newSubFolderInfo_def noSizes_def sizeOf_def pathToRemove_def
          endsWith_def removeStr.simps splitSkipEmptyParts_def initialChecked_def
          SubFolderInfo0_def Let_def emit_def set_subs_def set_fetched_def set_fetching_def)

text \<open>
  C6: \<open>slotUpdateDirectories\<close> at two listings of the folder \<open>x/\<close>. With the entry \<open>/dav/\<close>,
  which is the folder's remote path and is reduced to the empty path, the slot does not
  skip the entry: the name is taken with \<open>last()\<close> of the empty list of parts before the path
  is tested, and the run ends there. With the entry \<open>/dav/x/dav/\<close> the remote path is removed
  a second time from the middle, and the child has the path \<open>x\<close> and not \<open>x/dav/\<close>.
\<close>

theorem slotUpdateDirectories_entry_slips:
  "slotUpdateDirectories exModelX (jobs exModelX ! 0) noSizes
       [''/dav/x/'', ''/dav/'', ''/dav/x/a/''] = Inl EmptyList
   \<and> pathToRemove (remoteUrl (folderMap exModelX ! 0)) = ''/dav/''
   \<and> slotUpdateDirectories exModelX (jobs exModelX ! 0) noSizes [''/dav/x/'', ''/dav/x/dav/'']
     = Inr (emit [RowsInserted [0, 0] 0 1]
         (exModelX\<lparr>folders :=
            [SubFolderInfo (Some 0) ''home'' ''/'' [0]
               [SubFolderInfo (Some 0) ''x'' ''x/'' [0, 0]
                  [SubFolderInfo (Some 0) ''x'' ''x'' [0, 0, 0] [] 0 False False Checked]
                  0 True False Checked] 0 True False Checked]\<rparr>))"
  by (simp add: slotUpdateDirectories_def exModelX_def exModel_def exFolder_def
          infoForIndex_def newSubFolderInfo_def noSizes_def sizeOf_def pathToRemove_def
          endsWith_def removeStr.simps splitSkipEmptyParts_def initialChecked_def
          SubFolderInfo0_def Let_def emit_def set_subs_def set_fetched_def set_fetching_def)




text \<open>
  C5 (as the code has it): \<open>slotApplySelectiveSync\<close> does nothing when the model is not
  dirty. When it is dirty, the tree is discarded afterwards; a folder whose root is not
  there or not fetched is left as it is; a folder whose root is there and fetched gets the
  projected black list, the paths that are in exactly one of the old and the new black list
  are added to those given to the journal, \<open>slotTerminateSync\<close> is called once if there is
  such a path and the folder is busy, and nothing else of the folder changes; and the
  aliases of the folders with such a path, and of no others, are scheduled, in the order of
  the folders.
\<close>

theorem slotApplySelectiveSync_effect:
  "(\<not> dirty m \<longrightarrow> slotApplySelectiveSync m = m) \<and>
   (dirty m \<longrightarrow>
      folders (slotApplySelectiveSync m) = [] \<and> \<not> dirty (slotApplySelectiveSync m) \<and>
      length (folderMap (slotApplySelectiveSync m)) = length (folderMap m) \<and>
      (\<forall>j<length (folderMap m).
         \<not> (j < length (folders m) \<and> fetched (folders m ! j)) \<longrightarrow>
           folderMap (slotApplySelectiveSync m) ! j = folderMap m ! j) \<and>
      (\<forall>j<length (folderMap m).
         j < length (folders m) \<and> fetched (folders m ! j) \<longrightarrow>
           selectiveSyncBlackList (folderMap (slotApplySelectiveSync m) ! j)
             = createBlackList (Some (folders m ! j)) (selectiveSyncBlackList (folderMap m ! j)) \<and>
           folderAlias (folderMap (slotApplySelectiveSync m) ! j) = folderAlias (folderMap m ! j) \<and>
           remotePath (folderMap (slotApplySelectiveSync m) ! j) = remotePath (folderMap m ! j) \<and>
           remoteUrl (folderMap (slotApplySelectiveSync m) ! j) = remoteUrl (folderMap m ! j) \<and>
           isBusy (folderMap (slotApplySelectiveSync m) ! j) = isBusy (folderMap m ! j) \<and>
           avoidReadFromDb (folderMap (slotApplySelectiveSync m) ! j) =
             avoidReadFromDb (folderMap m ! j) \<union>
               {p. p \<in> set (selectiveSyncBlackList (folderMap m ! j)) \<and>
                     p \<notin> set (createBlackList (Some (folders m ! j))
                                (selectiveSyncBlackList (folderMap m ! j))) \<or>
                   p \<in> set (createBlackList (Some (folders m ! j))
                              (selectiveSyncBlackList (folderMap m ! j))) \<and>
                     p \<notin> set (selectiveSyncBlackList (folderMap m ! j))} \<and>
           terminateSyncCalls (folderMap (slotApplySelectiveSync m) ! j) =
             (if {p. p \<in> set (selectiveSyncBlackList (folderMap m ! j)) \<and>
                       p \<notin> set (createBlackList (Some (folders m ! j))
                                  (selectiveSyncBlackList (folderMap m ! j))) \<or>
                     p \<in> set (createBlackList (Some (folders m ! j))
                                (selectiveSyncBlackList (folderMap m ! j))) \<and>
                       p \<notin> set (selectiveSyncBlackList (folderMap m ! j))} \<noteq> {}
                 \<and> isBusy (folderMap m ! j)
              then Suc (terminateSyncCalls (folderMap m ! j))
              else terminateSyncCalls (folderMap m ! j))) \<and>
      scheduled (slotApplySelectiveSync m) =
        scheduled m @ map (\<lambda>j. folderAlias (folderMap m ! j))
          (filter (\<lambda>j. j < length (folders m) \<and> fetched (folders m ! j) \<and>
               {p. p \<in> set (selectiveSyncBlackList (folderMap m ! j)) \<and>
                     p \<notin> set (createBlackList (Some (folders m ! j))
                                (selectiveSyncBlackList (folderMap m ! j))) \<or>
                   p \<in> set (createBlackList (Some (folders m ! j))
                              (selectiveSyncBlackList (folderMap m ! j))) \<and>
                     p \<notin> set (selectiveSyncBlackList (folderMap m ! j))} \<noteq> {})
             [0..<length (folderMap m)]))"
proof -
  have loop: "dirty m \<Longrightarrow> slotApplySelectiveSync m = setAccount (applyLoop 0 m)"
    by (simp add: slotApplySelectiveSync_def resetFolders_def)
  have reset: "folders (setAccount x) = [] \<and> \<not> dirty (setAccount x) \<and>
      folderMap (setAccount x) = folderMap x \<and> scheduled (setAccount x) = scheduled x" for x
    by (simp add: setAccount_def emit_def)
  have a: "\<not> dirty m \<longrightarrow> slotApplySelectiveSync m = m"
    by (simp add: slotApplySelectiveSync_def)
  have b: "dirty m \<longrightarrow>
      folders (slotApplySelectiveSync m) = [] \<and> \<not> dirty (slotApplySelectiveSync m) \<and>
      length (folderMap (slotApplySelectiveSync m)) = length (folderMap m) \<and>
      (\<forall>j<length (folderMap m).
         folderMap (slotApplySelectiveSync m) ! j =
           (if projected m j then applyToFolder (folders m ! j) (folderMap m ! j)
            else folderMap m ! j)) \<and>
      scheduled (slotApplySelectiveSync m) =
        scheduled m @ map (\<lambda>j. folderAlias (folderMap m ! j))
          (filter (\<lambda>j. projected m j \<and> changesAt m j \<noteq> {}) [0..<length (folderMap m)])"
    using applyLoop_result [of 0 m] by (simp add: loop reset)
  show ?thesis
  proof (cases "dirty m")
    case False
    with a show ?thesis by simp
  next
    case True
    with b have nth: "\<And>j. j < length (folderMap m) \<Longrightarrow>
         folderMap (slotApplySelectiveSync m) ! j =
           (if projected m j then applyToFolder (folders m ! j) (folderMap m ! j)
            else folderMap m ! j)"
      and sched: "scheduled (slotApplySelectiveSync m) =
        scheduled m @ map (\<lambda>j. folderAlias (folderMap m ! j))
          (filter (\<lambda>j. projected m j \<and> changesAt m j \<noteq> {}) [0..<length (folderMap m)])"
      and fr: "folders (slotApplySelectiveSync m) = []" "\<not> dirty (slotApplySelectiveSync m)"
        "length (folderMap (slotApplySelectiveSync m)) = length (folderMap m)"
      by simp_all
    have un: "\<forall>j<length (folderMap m).
         \<not> (j < length (folders m) \<and> fetched (folders m ! j)) \<longrightarrow>
           folderMap (slotApplySelectiveSync m) ! j = folderMap m ! j"
      using nth by (simp add: projected_def)
    have pr: "folderMap (slotApplySelectiveSync m) ! j
        = applyToFolder (folders m ! j) (folderMap m ! j)"
      if "j < length (folderMap m)" "j < length (folders m) \<and> fetched (folders m ! j)" for j
      using nth [OF that(1)] that(2) by (simp add: projected_def)
    note sched' = sched [unfolded projected_def changesAt_eq conj_assoc]
    from True un fr sched' show ?thesis
      using applyToFolder_effect by (simp add: pr)
  qed
qed

theorem slotApplySelectiveSync_effect_witness:
  "dirty exBoth \<and>
   slotApplySelectiveSync exBoth =
     \<lparr>folderMap =
        [exFolder\<lparr>selectiveSyncBlackList := [''docs/''], terminateSyncCalls := 1,
                  avoidReadFromDb := {''photos/2020/'', ''docs/''}\<rparr>,
         exFolder2,
         exFolder2\<lparr>selectiveSyncBlackList := [], avoidReadFromDb := {''tmp/''}\<rparr>,
         exFolder2\<lparr>selectiveSyncBlackList := []\<rparr>],
      scheduled = [''home'', ''work''], folders = [], dirty = False, signals = [ModelReset],
      jobs = []\<rparr>
   \<and> \<not> dirty exFetched \<and> slotApplySelectiveSync exFetched = exFetched"
proof -
  have run: "slotApplySelectiveSync exBoth =
     \<lparr>folderMap =
        [exFolder\<lparr>selectiveSyncBlackList := [''docs/''], terminateSyncCalls := 1,
                  avoidReadFromDb := {''photos/2020/'', ''docs/''}\<rparr>,
         exFolder2,
         exFolder2\<lparr>selectiveSyncBlackList := [], avoidReadFromDb := {''tmp/''}\<rparr>,
         exFolder2\<lparr>selectiveSyncBlackList := []\<rparr>],
      scheduled = [''home'', ''work''], folders = [], dirty = False, signals = [ModelReset],
      jobs = []\<rparr>"
    by (simp add: slotApplySelectiveSync_def resetFolders_def setAccount_def emit_def
          applyLoop.simps applyFolder_def applyToFolder_def changes_def exBoth_def
          exFolder_def exFolder2_def Let_def insert_commute)
  have d: "dirty exBoth" by (simp add: exBoth_def)
  have nd: "\<not> dirty exFetched" by (simp add: exFetched_def exModel_def)
  from slotApplySelectiveSync_effect [of exBoth] slotApplySelectiveSync_effect [of exFetched]
    run d nd
  show ?thesis by simp
qed

text \<open>
  The claim has the tree discarded after every apply. In a model that is not dirty the
  root of the example is fetched, and \<open>slotApplySelectiveSync\<close> leaves the model as it
  is, tree included.
\<close>

theorem apply_not_dirty_counterexample:
  "0 < length (folders exFetched) \<and> fetched (folders exFetched ! 0) \<and>
   slotApplySelectiveSync exFetched = exFetched \<and> folders exFetched \<noteq> []"
  by (simp add: exFetched_def exModel_def slotApplySelectiveSync_def)

text \<open>
  C2 (as the code has it): \<open>setData\<close> for \<open>Checked\<close> or \<open>Unchecked\<close> on a node that is
  there returns, and afterwards the node has the new state and below it there are the same
  nodes as before, at the same places and with the same fields but for the state. A node
  below it keeps its state when the node itself, or a node between the two, or the node
  called with, had the new state already; otherwise it has the new state. In particular a
  node that already had the new state is left exactly as it was, with all that is below
  it: the loop over the children calls \<open>setData\<close> only for a child in another state. So when
  before the call every node of the subtree that already had the new state had only such
  nodes below it, the whole subtree has the new state afterwards.
\<close>

theorem setData_cascade:
  assumes "wellAddressed m" and "materialized m idx" and "nodeAt (folders m) idx = Some node"
    and "v \<noteq> PartiallyChecked"
  shows "\<exists>n m'. setData n m idx v = Inr m' \<and> stateAt m' idx = Some v \<and>
     (\<forall>r. r \<noteq> [] \<longrightarrow> nodeAt (folders m) (idx @ r) = None \<longrightarrow>
        nodeAt (folders m') (idx @ r) = None) \<and>
     (\<forall>r n0. r \<noteq> [] \<longrightarrow> nodeAt (folders m) (idx @ r) = Some n0 \<longrightarrow>
        (\<exists>n1. nodeAt (folders m') (idx @ r) = Some n1 \<and>
           folder n1 = folder n0 \<and> name n1 = name n0 \<and> path n1 = path n0 \<and>
           pathIdx n1 = pathIdx n0 \<and> sizeBytes n1 = sizeBytes n0 \<and>
           fetched n1 = fetched n0 \<and> fetching n1 = fetching n0 \<and>
           length (subs n1) = length (subs n0) \<and>
           checked n1 =
             (if \<exists>r'. strict_prefix r' r \<and> stateAt m (idx @ r') = Some v
              then checked n0 else v) \<and>
           (checked n0 = v \<longrightarrow> n1 = n0))) \<and>
     ((\<forall>r' r n0. strict_prefix r' r \<longrightarrow> stateAt m (idx @ r') = Some v \<longrightarrow>
          nodeAt (folders m) (idx @ r) = Some n0 \<longrightarrow> checked n0 = v) \<longrightarrow>
        (\<forall>r n1. nodeAt (folders m') (idx @ r) = Some n1 \<longrightarrow> checked n1 = v))"
proof -
  define B where "B = (\<lambda>r. \<exists>r'. strict_prefix r' r \<and> stateAt m (idx @ r') = Some v)"
  have sub: "nodeAt (folders m) (idx @ r) = nodeAt (subs node) r" if "r \<noteq> []" for r
    by (rule nodeAt_append [OF assms(3) that])
  have "\<exists>n m'. setData n m idx v = Inr m' \<and> stateAt m' idx = Some v \<and>
     (\<forall>r. r \<noteq> [] \<longrightarrow> nodeAt (folders m') (idx @ r) =
        (case nodeAt (folders m) (idx @ r) of
           None \<Rightarrow> None
         | Some n0 \<Rightarrow> Some (if B r then n0 else cascadeIf v n0)))"
  proof (cases "checked node = v")
    case True
    have run: "setData (Suc 0) m idx v = Inr (changed m idx)"
      by (rule runs_same [OF assms(2,3) True])
    have top: "stateAt (changed m idx) idx = Some v"
      using assms(3) True by (simp add: stateAt_def)
    have "B r" if "r \<noteq> []" for r
    proof -
      from that have "strict_prefix [] r" by (simp add: strict_prefix_def)
      moreover have "stateAt m (idx @ []) = Some v" using assms(3) True by (simp add: stateAt_def)
      ultimately show ?thesis unfolding B_def by blast
    qed
    then have "\<forall>r. r \<noteq> [] \<longrightarrow> nodeAt (folders (changed m idx)) (idx @ r) =
        (case nodeAt (folders m) (idx @ r) of
           None \<Rightarrow> None
         | Some n0 \<Rightarrow> Some (if B r then n0 else cascadeIf v n0))"
      by (simp split: option.splits)
    with run top show ?thesis by blast
  next
    case False
    define m' where "m' = setDataResult v m idx node"
    from setData_runs [OF assms(1-3) False] obtain n where
      n: "setData n m idx v = Inr m'" by (auto simp: runs_def m'_def)
    have node2: "nodeAt (folders (up v m idx)) idx = Some (set_checked v node)"
      using nodeAt_updateAt_same [OF assms(3)] by (simp add: up_frame)
    have fm: "folders m' = updateAt (cascadeFrom v 0) idx (folders (up v m idx))"
      using assms(4) by (simp add: m'_def setDataResult_folders)
    have top: "stateAt m' idx = Some v"
      using node2 by (simp add: stateAt_def fm nodeAt_updateAt_at)
    have desc: "nodeAt (folders m') (idx @ r) =
        (case nodeAt (folders m) (idx @ r) of
           None \<Rightarrow> None
         | Some n0 \<Rightarrow> Some (if B r then n0 else cascadeIf v n0))" if r: "r \<noteq> []" for r
    proof -
      have "nodeAt (folders m') (idx @ r)
          = nodeAt (subs (cascadeFrom v 0 (set_checked v node))) r"
        unfolding fm by (rule nodeAt_updateAt_ext [OF node2 r])
      also have "\<dots> = nodeAt (map (cascadeIf v) (subs node)) r"
        by (simp add: cascadeFrom_def)
      also have "\<dots> = (case nodeAt (subs node) r of
           None \<Rightarrow> None
         | Some n0 \<Rightarrow>
             Some (if \<exists>r'. r' \<noteq> [] \<and> strict_prefix r' r \<and>
                        map_option checked (nodeAt (subs node) r') = Some v
                   then n0 else cascadeIf v n0))"
        by (rule nodeAt_cascadeIf)
      also have "(\<exists>r'. r' \<noteq> [] \<and> strict_prefix r' r \<and>
            map_option checked (nodeAt (subs node) r') = Some v) \<longleftrightarrow> B r"
      proof
        assume "\<exists>r'. r' \<noteq> [] \<and> strict_prefix r' r \<and>
            map_option checked (nodeAt (subs node) r') = Some v"
        then obtain r' where r': "r' \<noteq> []" "strict_prefix r' r"
          "map_option checked (nodeAt (subs node) r') = Some v" by blast
        with sub [OF r'(1)] have "stateAt m (idx @ r') = Some v" by (simp add: stateAt_def)
        with r'(2) show "B r" unfolding B_def by blast
      next
        assume "B r"
        then obtain r' where r': "strict_prefix r' r" "stateAt m (idx @ r') = Some v"
          unfolding B_def by blast
        have "r' \<noteq> []"
        proof
          assume "r' = []"
          with r'(2) assms(3) False show False by (simp add: stateAt_def)
        qed
        with r' sub [OF this] show "\<exists>r'. r' \<noteq> [] \<and> strict_prefix r' r \<and>
            map_option checked (nodeAt (subs node) r') = Some v"
          by (auto simp: stateAt_def)
      qed
      finally show ?thesis by (simp only: sub [OF r])
    qed
    with n top show ?thesis by blast
  qed
  then obtain n m' where run: "setData n m idx v = Inr m'"
    and top: "stateAt m' idx = Some v"
    and desc: "\<And>r. r \<noteq> [] \<Longrightarrow> nodeAt (folders m') (idx @ r) =
        (case nodeAt (folders m) (idx @ r) of
           None \<Rightarrow> None
         | Some n0 \<Rightarrow> Some (if B r then n0 else cascadeIf v n0))"
    by blast
  have none: "\<forall>r. r \<noteq> [] \<longrightarrow> nodeAt (folders m) (idx @ r) = None \<longrightarrow>
        nodeAt (folders m') (idx @ r) = None"
    using desc by simp
  have some: "\<exists>n1. nodeAt (folders m') (idx @ r) = Some n1 \<and>
           folder n1 = folder n0 \<and> name n1 = name n0 \<and> path n1 = path n0 \<and>
           pathIdx n1 = pathIdx n0 \<and> sizeBytes n1 = sizeBytes n0 \<and>
           fetched n1 = fetched n0 \<and> fetching n1 = fetching n0 \<and>
           length (subs n1) = length (subs n0) \<and>
           checked n1 = (if B r then checked n0 else v) \<and>
           (checked n0 = v \<longrightarrow> n1 = n0)"
    if "r \<noteq> []" "nodeAt (folders m) (idx @ r) = Some n0" for r n0
    using desc [OF that(1)] that(2) by (simp add: cascadeIf_sel)
  have all: "\<forall>r n1. nodeAt (folders m') (idx @ r) = Some n1 \<longrightarrow> checked n1 = v"
    if P: "\<forall>r' r n0. strict_prefix r' r \<longrightarrow> stateAt m (idx @ r') = Some v \<longrightarrow>
          nodeAt (folders m) (idx @ r) = Some n0 \<longrightarrow> checked n0 = v"
  proof (intro allI impI)
    fix r n1 assume n1: "nodeAt (folders m') (idx @ r) = Some n1"
    show "checked n1 = v"
    proof (cases "r = []")
      case True
      with n1 top show ?thesis by (simp add: stateAt_def)
    next
      case False
      with n1 none obtain n0 where n0: "nodeAt (folders m) (idx @ r) = Some n0"
        by (cases "nodeAt (folders m) (idx @ r)") auto
      from some [OF False n0] n1 have c: "checked n1 = (if B r then checked n0 else v)" by auto
      show ?thesis
      proof (cases "B r")
        case True
        then obtain r' where "strict_prefix r' r" "stateAt m (idx @ r') = Some v"
          unfolding B_def by blast
        with P n0 have "checked n0 = v" by blast
        with c True show ?thesis by simp
      next
        case False
        with c show ?thesis by simp
      qed
    qed
  qed
  from run top none some all show ?thesis unfolding B_def by blast
qed

theorem setData_cascade_witness:
  "wellAddressed exSettled \<and> materialized exSettled [0, 0] \<and>
   nodeAt (folders exSettled) [0, 0] = Some exPhotos \<and>
   setData 6 exSettled [0, 0] Checked =
     Inr (exModel\<lparr>folders :=
       [SubFolderInfo (Some 0) ''home'' ''/'' [0]
          [SubFolderInfo (Some 0) ''photos'' ''photos/'' [0, 0]
             [SubFolderInfo (Some 0) ''2020'' ''photos/2020/'' [0, 0, 0]
                [SubFolderInfo (Some 0) ''jan'' ''photos/2020/jan/'' [0, 0, 0, 0] [] 0 False False
                   Checked]
                0 True False Checked,
              SubFolderInfo (Some 0) ''2021'' ''photos/2021/'' [0, 0, 1] [] 0 False False Checked]
             0 True False Checked]
          0 True False Checked],
       dirty := True,
       signals := [DirtyChanged, DataChanged [0], DirtyChanged, DataChanged [0, 0, 0, 0],
                   DirtyChanged, DataChanged [0, 0, 0], DirtyChanged, DataChanged [0, 0]]\<rparr>)"
proof -
  have a: "wellAddressed exSettled" by code_simp
  have b: "materialized exSettled [0, 0]" by code_simp
  have c: "nodeAt (folders exSettled) [0, 0] = Some exPhotos" by code_simp
  have e: "setData 6 exSettled [0, 0] Checked =
     Inr (exModel\<lparr>folders :=
       [SubFolderInfo (Some 0) ''home'' ''/'' [0]
          [SubFolderInfo (Some 0) ''photos'' ''photos/'' [0, 0]
             [SubFolderInfo (Some 0) ''2020'' ''photos/2020/'' [0, 0, 0]
                [SubFolderInfo (Some 0) ''jan'' ''photos/2020/jan/'' [0, 0, 0, 0] [] 0 False False
                   Checked]
                0 True False Checked,
              SubFolderInfo (Some 0) ''2021'' ''photos/2021/'' [0, 0, 1] [] 0 False False Checked]
             0 True False Checked]
          0 True False Checked],
       dirty := True,
       signals := [DirtyChanged, DataChanged [0], DirtyChanged, DataChanged [0, 0, 0, 0],
                   DirtyChanged, DataChanged [0, 0, 0], DirtyChanged, DataChanged [0, 0]]\<rparr>)"
    by code_simp
  have "Checked \<noteq> PartiallyChecked" by simp
  from setData_cascade [OF a b c this] a b c e show ?thesis by simp
qed

text \<open>
  Without the proviso the claim fails: \<open>photos/\<close> is set to \<open>Checked\<close>, its child
  \<open>photos/2020/\<close> is \<open>Checked\<close> already and is skipped, and \<open>photos/2020/jan/\<close> below it
  stays \<open>Unchecked\<close>.
\<close>

theorem cascade_skips_counterexample:
  "wellAddressed exDeep \<and> materialized exDeep [0, 0] \<and>
   setData 6 exDeep [0, 0] Checked = Inr exDeepChecked \<and>
   nodeAt (folders exDeepChecked) [0, 0, 0, 0] =
     Some (SubFolderInfo (Some 0) ''jan'' ''photos/2020/jan/'' [0, 0, 0, 0] [] 0 False False
             Unchecked)"
proof -
  have a: "wellAddressed exDeep" by code_simp
  have b: "materialized exDeep [0, 0]" by code_simp
  have c: "setData 6 exDeep [0, 0] Checked = Inr exDeepChecked" by code_simp
  have d: "nodeAt (folders exDeepChecked) [0, 0, 0, 0] =
     Some (SubFolderInfo (Some 0) ''jan'' ''photos/2020/jan/'' [0, 0, 0, 0] [] 0 False False
             Unchecked)" by code_simp
  from a b c d show ?thesis by simp
qed

text \<open>
  C3 (as the code has it): \<open>setData\<close> on a node below a root, in another state than the new
  one, returns. The parent is re-evaluated once, with the node already in its new state, and
  the re-evaluation is a call of \<open>setData\<close> on the parent or nothing: for \<open>Checked\<close>, a parent
  that is not \<open>Checked\<close> is set to \<open>Checked\<close> when all its other children are \<open>Checked\<close>, and
  else to \<open>PartiallyChecked\<close> when it was \<open>Unchecked\<close>; for \<open>Unchecked\<close>, a \<open>Checked\<close> parent is
  set to \<open>PartiallyChecked\<close>; for \<open>PartiallyChecked\<close>, a parent in another state is set to
  \<open>PartiallyChecked\<close>. When there is no call, no ancestor changes its state. When there is
  one, the parent ends in the state of the call, and the states of all the ancestors are
  those that the call of \<open>setData\<close> on the parent leaves, which re-evaluates its own parent in
  the same way.
\<close>

theorem setData_parent:
  assumes "wellAddressed m" and "nodeAt (folders m) idx = Some node" and "2 \<le> length idx"
    and "checked node \<noteq> v" and "nodeAt (folders m) (butlast idx) = Some pn"
  shows "\<exists>n m'. setData n m idx v = Inr m' \<and>
     (case parentCall v (set_subs ((subs pn)[last idx := set_checked v node]) pn) of
        None \<Rightarrow> sameAncestors m' m idx
      | Some v' \<Rightarrow>
          checked pn \<noteq> v' \<and>
          map_option checked (nodeAt (folders m') (butlast idx)) = Some v' \<and>
          (\<exists>n' m''.
             setData n' (m\<lparr>folders := updateAt (set_checked v) idx (folders m)\<rparr>) (butlast idx) v'
               = Inr m'' \<and>
             sameAncestors m' m'' idx)) \<and>
     (v = Checked \<longrightarrow>
        parentCall v (set_subs ((subs pn)[last idx := set_checked v node]) pn) =
          (if checked pn = Checked then None
           else if \<forall>k<length (subs pn). k \<noteq> last idx \<longrightarrow> checked (subs pn ! k) = Checked
             then Some Checked
           else if checked pn = Unchecked then Some PartiallyChecked
           else None)) \<and>
     (v = Unchecked \<longrightarrow>
        parentCall v (set_subs ((subs pn)[last idx := set_checked v node]) pn) =
          (if checked pn = Checked then Some PartiallyChecked else None)) \<and>
     (v = PartiallyChecked \<longrightarrow>
        parentCall v (set_subs ((subs pn)[last idx := set_checked v node]) pn) =
          (if checked pn = PartiallyChecked then None else Some PartiallyChecked))"
proof -
  let ?par = "butlast idx"
  define pn1 where "pn1 = set_subs ((subs pn)[last idx := set_checked v node]) pn"
  define m1 where "m1 = m\<lparr>folders := updateAt (set_checked v) idx (folders m)\<rparr>"
  have mat: "materialized m idx" by (rule materialized_sub [OF assms(2,3)])
  from setData_runs [OF assms(1) mat assms(2,4)] obtain n where
    n: "setData n m idx v = Inr (setDataResult v m idx node)" by (auto simp: runs_def)
  define m' where "m' = setDataResult v m idx node"
  have wa1: "wellAddressed m1" unfolding m1_def by (rule wellAddressed_set_checked [OF assms(1)])
  have node1: "nodeAt (folders m1) idx = Some (set_checked v node)"
    using nodeAt_updateAt_same [OF assms(2)] by (simp add: m1_def)
  have pn1: "nodeAt (folders m1) ?par = Some pn1"
    using parent_node_after_set [OF assms(2,3,5)] by (simp add: m1_def pn1_def)
  have anc: "map_option checked (nodeAt (folders m') (take k idx))
      = map_option checked (nodeAt (folders (up v m idx)) (take k idx))" if "k < length idx" for k
    unfolding m'_def by (rule checked_setDataResult_prefix) (simp add: take_is_prefix)
  have main: "case parentCall v pn1 of
        None \<Rightarrow> sameAncestors m' m idx
      | Some v' \<Rightarrow>
          checked pn \<noteq> v' \<and>
          map_option checked (nodeAt (folders m') ?par) = Some v' \<and>
          (\<exists>n' m''. setData n' m1 ?par v' = Inr m'' \<and> sameAncestors m' m'' idx)"
  proof (cases "parentCall v pn1")
    case None
    with pn1 assms(3) have "up v m idx = m1"
      by (subst up.simps) (simp add: Let_def m1_def)
    moreover have "map_option checked (nodeAt (folders m1) (take k idx))
        = map_option checked (nodeAt (folders m) (take k idx))" if "k < length idx" for k
      using that by (auto simp: m1_def checked_nodeAt_set_checked dest: arg_cong [of _ _ length])
    ultimately show ?thesis using None anc by (simp add: sameAncestors_def)
  next
    case (Some v')
    with pn1 assms(3) have upeq: "up v m idx = changed (up v' m1 ?par) ?par"
      by (subst up.simps) (simp add: Let_def m1_def)
    from parentCall_Some [OF Some] have neq: "checked pn1 \<noteq> v'" by simp
    then have neq': "checked pn \<noteq> v'" by (simp add: pn1_def)
    have matp: "materialized m1 ?par" by (rule materialized_parent [OF wa1 node1 assms(3)])
    from setData_runs [OF wa1 matp pn1 neq] obtain n' where
      n': "setData n' m1 ?par v' = Inr (setDataResult v' m1 ?par pn1)" by (auto simp: runs_def)
    have len: "length idx - 1 < length idx" using assms(3) by simp
    have "map_option checked (nodeAt (folders m') ?par)
        = map_option checked (nodeAt (folders (up v' m1 ?par)) ?par)"
      using anc [OF len] by (simp add: butlast_conv_take upeq)
    also have "\<dots> = Some v'"
      using pn1 by (simp add: up_frame nodeAt_updateAt_at)
    finally have parent: "map_option checked (nodeAt (folders m') ?par) = Some v'" .
    have "map_option checked (nodeAt (folders m') (take k idx))
        = map_option checked (nodeAt (folders (setDataResult v' m1 ?par pn1)) (take k idx))"
      if "k < length idx" for k
      using anc [OF that] checked_setDataResult_prefix [OF take_prefix_butlast [OF that]]
      by (simp add: upeq)
    then have "sameAncestors m' (setDataResult v' m1 ?par pn1) idx"
      by (simp add: sameAncestors_def)
    with Some neq' parent n' show ?thesis by auto
  qed
  from nodeAt_butlast [OF assms(2,3)] assms(5)
  have k: "last idx < length (subs pn)" by auto
  have hu: "hasUnchecked pn1 \<longleftrightarrow>
      \<not> (\<forall>k<length (subs pn). k \<noteq> last idx \<longrightarrow> checked (subs pn ! k) = Checked)"
    if v: "v = Checked"
  proof -
    have "checked (subs pn1 ! j) \<noteq> Checked \<longleftrightarrow> j \<noteq> last idx \<and> checked (subs pn ! j) \<noteq> Checked"
      if "j < length (subs pn)" for j
      using that v k by (auto simp: pn1_def nth_list_update)
    moreover have "length (subs pn1) = length (subs pn)" by (simp add: pn1_def)
    ultimately show ?thesis unfolding hasUnchecked_iff by auto
  qed
  have c: "v = Checked \<longrightarrow> parentCall v pn1 =
          (if checked pn = Checked then None
           else if \<forall>k<length (subs pn). k \<noteq> last idx \<longrightarrow> checked (subs pn ! k) = Checked
             then Some Checked
           else if checked pn = Unchecked then Some PartiallyChecked
           else None)"
    using hu by (auto simp: parentCall_def pn1_def)
  have u: "v = Unchecked \<longrightarrow> parentCall v pn1 =
          (if checked pn = Checked then Some PartiallyChecked else None)"
    by (simp add: parentCall_def pn1_def)
  have p: "v = PartiallyChecked \<longrightarrow> parentCall v pn1 =
          (if checked pn = PartiallyChecked then None else Some PartiallyChecked)"
    by (simp add: parentCall_def pn1_def)
  from n main c u p show ?thesis
    unfolding m'_def pn1_def m1_def by blast
qed

theorem setData_parent_witness:
  "wellAddressed exAllChecked \<and>
   nodeAt (folders exAllChecked) [0, 0, 0] =
     Some (SubFolderInfo (Some 0) ''2020'' ''photos/2020/'' [0, 0, 0] [] 0 False False Checked) \<and>
   nodeAt (folders exAllChecked) [0, 0] =
     Some (SubFolderInfo (Some 0) ''photos'' ''photos/'' [0, 0]
           [SubFolderInfo (Some 0) ''2020'' ''photos/2020/'' [0, 0, 0] [] 0 False False Checked,
            SubFolderInfo (Some 0) ''2021'' ''photos/2021/'' [0, 0, 1] [] 0 False False Checked]
           0 True False Checked) \<and>
   setData 6 exAllChecked [0, 0, 0] Unchecked = Inr exOneUnchecked \<and>
   map_option checked (nodeAt (folders exOneUnchecked) [0, 0]) = Some PartiallyChecked"
proof -
  have a: "wellAddressed exAllChecked" by code_simp
  have b: "nodeAt (folders exAllChecked) [0, 0, 0] =
     Some (SubFolderInfo (Some 0) ''2020'' ''photos/2020/'' [0, 0, 0] [] 0 False False Checked)"
    by code_simp
  have c: "2 \<le> length [0::nat, 0, 0]" by simp
  have d: "checked (SubFolderInfo (Some 0) ''2020'' ''photos/2020/'' [0, 0, 0] [] 0 False False
      Checked) \<noteq> Unchecked" by simp
  have e: "nodeAt (folders exAllChecked) (butlast [0, 0, 0]) =
     Some (SubFolderInfo (Some 0) ''photos'' ''photos/'' [0, 0]
           [SubFolderInfo (Some 0) ''2020'' ''photos/2020/'' [0, 0, 0] [] 0 False False Checked,
            SubFolderInfo (Some 0) ''2021'' ''photos/2021/'' [0, 0, 1] [] 0 False False Checked]
           0 True False Checked)"
    by code_simp
  have f: "setData 6 exAllChecked [0, 0, 0] Unchecked = Inr exOneUnchecked" by code_simp
  have g: "map_option checked (nodeAt (folders exOneUnchecked) [0, 0]) = Some PartiallyChecked"
    by code_simp
  from setData_parent [OF a b c d e] a b e f g show ?thesis by simp
qed

text \<open>
  The step is not a single one: in a tree where everything is \<open>Checked\<close>, \<open>photos/2020/\<close> is
  set to \<open>Unchecked\<close>; its parent \<open>photos/\<close> becomes \<open>PartiallyChecked\<close>, and so does the root
  above it.
\<close>

theorem further_ancestor_counterexample:
  "setData 6 exAllChecked [0, 0, 0] Unchecked = Inr exOneUnchecked \<and>
   map_option checked (nodeAt (folders exAllChecked) [0, 0]) = Some Checked \<and>
   map_option checked (nodeAt (folders exAllChecked) [0]) = Some Checked \<and>
   map_option checked (nodeAt (folders exOneUnchecked) [0, 0]) = Some PartiallyChecked \<and>
   map_option checked (nodeAt (folders exOneUnchecked) [0]) = Some PartiallyChecked"
proof -
  have a: "setData 6 exAllChecked [0, 0, 0] Unchecked = Inr exOneUnchecked" by code_simp
  have b: "map_option checked (nodeAt (folders exAllChecked) [0, 0]) = Some Checked" by code_simp
  have c: "map_option checked (nodeAt (folders exAllChecked) [0]) = Some Checked" by code_simp
  have d: "map_option checked (nodeAt (folders exOneUnchecked) [0, 0]) = Some PartiallyChecked"
    by code_simp
  have e: "map_option checked (nodeAt (folders exOneUnchecked) [0]) = Some PartiallyChecked"
    by code_simp
  from a b c d e show ?thesis by simp
qed

text \<open>
  C7 (as the code has it): \<open>setData\<close> on a node that is there returns, sets \<open>_dirty\<close> and emits
  \<open>dataChanged\<close> for the index it was called with, whether the state changes or not, and
  besides that for exactly the indices whose node has changed its state, once for each index.
  When the node has the new state already, the tree is left as it is, and \<open>_dirty\<close> and the
  signals \<open>dirtyChanged\<close> and \<open>dataChanged\<close> for the index are the only effect.
\<close>

theorem setData_notifications:
  assumes "wellAddressed m" and "materialized m idx" and "nodeAt (folders m) idx = Some node"
  shows "\<exists>n m'. setData n m idx v = Inr m' \<and> dirty m' \<and>
     signals m' = signals m @ emitted m m' \<and>
     (\<forall>q. DataChanged q \<in> set (emitted m m') \<longleftrightarrow> q = idx \<or> stateAt m' q \<noteq> stateAt m q) \<and>
     distinct (filter (\<lambda>s. s \<noteq> DirtyChanged) (emitted m m')) \<and>
     (checked node = v \<longrightarrow>
        m' = m\<lparr>dirty := True, signals := signals m @ [DirtyChanged, DataChanged idx]\<rparr>)"
proof (cases "checked node = v")
  case True
  have run: "setData (Suc 0) m idx v = Inr (changed m idx)"
    by (rule runs_same [OF assms(2,3) True])
  have em: "emitted m (changed m idx) = [DirtyChanged, DataChanged idx]"
    by (simp add: emitted_def)
  have st: "stateAt (changed m idx) q = stateAt m q" for q by (simp add: stateAt_def)
  have ch: "changed m idx
      = m\<lparr>dirty := True, signals := signals m @ [DirtyChanged, DataChanged idx]\<rparr>"
    by (simp add: changed_def emit_def)
  have "dirty (changed m idx) \<and>
     signals (changed m idx) = signals m @ emitted m (changed m idx) \<and>
     (\<forall>q. DataChanged q \<in> set (emitted m (changed m idx)) \<longleftrightarrow>
        q = idx \<or> stateAt (changed m idx) q \<noteq> stateAt m q) \<and>
     distinct (filter (\<lambda>s. s \<noteq> DirtyChanged) (emitted m (changed m idx))) \<and>
     (checked node = v \<longrightarrow> changed m idx
        = m\<lparr>dirty := True, signals := signals m @ [DirtyChanged, DataChanged idx]\<rparr>)"
    using ch by (simp add: em st)
  with run show ?thesis by blast
next
  case False
  define m' where "m' = setDataResult v m idx node"
  define Q where "Q = (\<lambda>r. map_option checked (nodeAt (map (cascadeIf v) (subs node)) r)
      \<noteq> map_option checked (nodeAt (subs node) r))"
  define D where "D = (if v = PartiallyChecked then [] else downSignalsFrom v idx 0 (subs node))"
  from setData_runs [OF assms False] obtain n where
    n: "setData n m idx v = Inr m'" by (auto simp: runs_def m'_def)
  from up_signals [of v m idx] obtain new where
    sig: "signals (up v m idx) = signals m @ new"
    and dnew: "distinct (filter (\<lambda>s. s \<noteq> DirtyChanged) new)"
    and new: "\<And>q. DataChanged q \<in> set new \<longleftrightarrow>
        strict_prefix q idx \<and> stateAt (up v m idx) q \<noteq> stateAt m q"
    by blast
  have sig': "signals m' = signals m @ (new @ D @ [DirtyChanged, DataChanged idx])"
    using sig by (cases "v = PartiallyChecked") (auto simp: m'_def setDataResult_def loopResult_def D_def)
  then have em: "emitted m m' = new @ D @ [DirtyChanged, DataChanged idx]"
    by (simp add: emitted_def)
  have dirty: "dirty m'" by (simp add: m'_def setDataResult_def)
  have inD: "DataChanged q \<in> set D \<longleftrightarrow>
      v \<noteq> PartiallyChecked \<and> (\<exists>k r. q = idx @ k # r \<and> Q (k # r))" for q
    using down_notified(2) [of q v idx 0 "subs node"] by (simp add: D_def Q_def)
  have node2: "nodeAt (folders (up v m idx)) idx = Some (set_checked v node)"
    using nodeAt_updateAt_same [OF assms(3)] by (simp add: up_frame)
  have upq: "nodeAt (folders (up v m idx)) q = nodeAt (folders m) q" if "\<not> prefix q idx" for q
  proof -
    from that have "\<not> strict_prefix q idx" by (simp add: strict_prefix_def)
    then have "nodeAt (folders (up v m idx)) q
        = nodeAt (updateAt (set_checked v) idx (folders m)) q" by (rule up_frame)
    also have "\<dots> = nodeAt (folders m) q"
      by (rule nodeAt_updateAt_below [OF _ that]) simp
    finally show ?thesis .
  qed
  have main: "DataChanged q \<in> set (emitted m m') \<longleftrightarrow> q = idx \<or> stateAt m' q \<noteq> stateAt m q"
    for q
  proof -
    consider (self) "q = idx" | (above) "strict_prefix q idx" | (below) "strict_prefix idx q"
      | (other) "\<not> prefix q idx" "\<not> prefix idx q"
      by (auto simp: strict_prefix_def)
    then show ?thesis
    proof cases
      case self
      then show ?thesis by (simp add: em)
    next
      case above
      then have "q \<noteq> idx" "prefix q idx" by (auto simp: strict_prefix_def)
      have notD: "DataChanged q \<notin> set D"
        using above by (auto simp: inD strict_prefix_def)
      have "stateAt m' q = stateAt (up v m idx) q"
        unfolding stateAt_def m'_def by (rule checked_setDataResult_prefix [OF \<open>prefix q idx\<close>])
      with new [of q] above notD \<open>q \<noteq> idx\<close> show ?thesis by (simp add: em)
    next
      case below
      then obtain r where r: "q = idx @ r" "r \<noteq> []"
        by (auto simp: strict_prefix_def prefix_def)
      from below have nq: "q \<noteq> idx" "\<not> prefix q idx" by (auto simp: strict_prefix_def)
      have notnew: "DataChanged q \<notin> set new"
        using new [of q] below by (auto simp: strict_prefix_def)
      have before: "stateAt m q = map_option checked (nodeAt (subs node) r)"
        using nodeAt_append [OF assms(3) r(2)] by (simp add: stateAt_def r(1))
      show ?thesis
      proof (cases "v = PartiallyChecked")
        case True
        then have "folders m' = folders (up v m idx)" by (simp add: m'_def setDataResult_folders)
        then have "stateAt m' q = stateAt m q" using upq [OF nq(2)] by (simp add: stateAt_def)
        with True notnew nq show ?thesis by (simp add: em inD)
      next
        case False
        then have "folders m' = updateAt (cascadeFrom v 0) idx (folders (up v m idx))"
          by (simp add: m'_def setDataResult_folders)
        then have "stateAt m' q = map_option checked
            (nodeAt (subs (cascadeFrom v 0 (set_checked v node))) r)"
          using nodeAt_updateAt_ext [OF node2 r(2)] by (simp add: stateAt_def r(1))
        then have after: "stateAt m' q = map_option checked
            (nodeAt (map (cascadeIf v) (subs node)) r)"
          by (simp add: cascadeFrom_def)
        from r(2) obtain k r' where kr: "r = k # r'" by (cases r) auto
        have "DataChanged q \<in> set D \<longleftrightarrow> Q r"
          using False by (auto simp: inD r(1) kr)
        with notnew nq before after show ?thesis by (simp add: em Q_def)
      qed
    next
      case other
      then have nq: "q \<noteq> idx" by auto
      have notnew: "DataChanged q \<notin> set new"
        using new [of q] other by (auto simp: strict_prefix_def)
      have notD: "DataChanged q \<notin> set D"
        using other by (auto simp: inD)
      have "nodeAt (folders m') q = nodeAt (folders (up v m idx)) q"
        unfolding m'_def setDataResult_folders
        by (simp add: nodeAt_updateAt_other [OF other])
      then have "stateAt m' q = stateAt m q" using upq [OF other(1)] by (simp add: stateAt_def)
      with notnew notD nq show ?thesis by (simp add: em)
    qed
  qed
  have dD: "distinct (filter (\<lambda>s. s \<noteq> DirtyChanged) D)"
    by (simp add: D_def down_distinct(2))
  have kD: "x = DirtyChanged \<or> (\<exists>q. x = DataChanged q)" if "x \<in> set D" for x
    using that by (auto simp: D_def dest: down_kinds(2) split: if_splits)
  have disj: "x \<notin> set D" if x: "x \<in> set new" "x \<noteq> DirtyChanged" for x
  proof
    assume y: "x \<in> set D"
    from kD [OF y] x(2) obtain q where q: "x = DataChanged q" by auto
    from x(1) new [of q] have "strict_prefix q idx" by (simp add: q)
    moreover from y inD [of q] obtain k r where "q = idx @ k # r" by (auto simp: q)
    ultimately show False by (simp add: strict_prefix_def)
  qed
  have "DataChanged idx \<notin> set new" using new [of idx] by simp
  moreover have "DataChanged idx \<notin> set D" by (simp add: inD)
  ultimately have dist: "distinct (filter (\<lambda>s. s \<noteq> DirtyChanged) (emitted m m'))"
    using dnew dD disj by (auto simp: em)
  from n dirty sig' [folded em] main dist False show ?thesis by blast
qed

theorem setData_notifications_witness:
  "wellAddressed exAllChecked \<and> materialized exAllChecked [0, 0, 0] \<and>
   nodeAt (folders exAllChecked) [0, 0, 0] =
     Some (SubFolderInfo (Some 0) ''2020'' ''photos/2020/'' [0, 0, 0] [] 0 False False Checked) \<and>
   setData 6 exAllChecked [0, 0, 0] Unchecked = Inr exOneUnchecked \<and>
   emitted exAllChecked exOneUnchecked =
     [DirtyChanged, DataChanged [0], DirtyChanged, DataChanged [0, 0],
      DirtyChanged, DataChanged [0, 0, 0]] \<and>
   (\<exists>n m'. setData n exAllChecked [0, 0, 0] Unchecked = Inr m' \<and> dirty m' \<and>
      DataChanged [0, 0, 0] \<in> set (emitted exAllChecked m'))"
proof -
  have a: "wellAddressed exAllChecked" by code_simp
  have b: "materialized exAllChecked [0, 0, 0]" by code_simp
  have c: "nodeAt (folders exAllChecked) [0, 0, 0] =
     Some (SubFolderInfo (Some 0) ''2020'' ''photos/2020/'' [0, 0, 0] [] 0 False False Checked)"
    by code_simp
  have d: "setData 6 exAllChecked [0, 0, 0] Unchecked = Inr exOneUnchecked" by code_simp
  have e: "emitted exAllChecked exOneUnchecked =
     [DirtyChanged, DataChanged [0], DirtyChanged, DataChanged [0, 0],
      DirtyChanged, DataChanged [0, 0, 0]]" by code_simp
  from setData_notifications [OF a b c, of Unchecked]
  have "\<exists>n m'. setData n exAllChecked [0, 0, 0] Unchecked = Inr m' \<and> dirty m' \<and>
      DataChanged [0, 0, 0] \<in> set (emitted exAllChecked m')" by blast
  with a b c d e show ?thesis by simp
qed

text \<open>
  The call with the state that the node has is not without effect: \<open>photos/\<close> is \<open>Checked\<close>
  and is set to \<open>Checked\<close>, after which the model is dirty and \<open>dirtyChanged\<close> and
  \<open>dataChanged\<close> for \<open>photos/\<close> have been emitted.
\<close>

theorem same_state_counterexample:
  "stateAt exAllChecked [0, 0] = Some Checked \<and>
   \<not> dirty exAllChecked \<and> signals exAllChecked = [] \<and>
   setData 6 exAllChecked [0, 0] Checked = Inr exRechecked \<and>
   dirty exRechecked \<and> signals exRechecked = [DirtyChanged, DataChanged [0, 0]]"
proof -
  have a: "stateAt exAllChecked [0, 0] = Some Checked" by code_simp
  have b: "\<not> dirty exAllChecked" by code_simp
  have c: "signals exAllChecked = []" by code_simp
  have d: "setData 6 exAllChecked [0, 0] Checked = Inr exRechecked" by code_simp
  have e: "dirty exRechecked" by code_simp
  have f: "signals exRechecked = [DirtyChanged, DataChanged [0, 0]]" by code_simp
  from a b c d e f show ?thesis by simp
qed

text \<open>
  C9: in a model reached from a new model by any run of operations that returns, every
  node that is there has as its \<open>_pathIdx\<close> the index it stands at: a root the one-element
  list of its row, a node below a root the \<open>_pathIdx\<close> of its parent followed by its position
  among the parent's children, and \<open>parent\<close> finds the parent from it. Every operation that
  returns leaves a model that is addressed in this way again; in particular the children
  that the end of a listing job appends have their position as the last element of their
  \<open>_pathIdx\<close>.
\<close>

theorem address_invariant:
  assumes "run ops (newModel fm d) = Inr m"
  shows "wellAddressed m \<and>
     (\<forall>idx n. materialized m idx \<longrightarrow> nodeAt (folders m) idx = Some n \<longrightarrow>
        pathIdx n = idx \<and>
        (2 \<le> length idx \<longrightarrow>
           parent m idx = Inr (butlast idx) \<and>
           (\<exists>pn. nodeAt (folders m) (butlast idx) = Some pn \<and> last idx < length (subs pn) \<and>
              subs pn ! last idx = n \<and> pathIdx n = pathIdx pn @ [last idx]))) \<and>
     (\<forall>op m'. perform op m = Inr m' \<longrightarrow> wellAddressed m') \<and>
     (\<forall>j l sizes m' k c. j < length (jobs m) \<longrightarrow> parentIndex (jobs m ! j) \<noteq> [] \<longrightarrow>
        jobFinished m j (DirectoryListingSubfolders l sizes) = Inr m' \<longrightarrow>
        nodeAt (folders m') (parentIndex (jobs m ! j) @ [k]) = Some c \<longrightarrow>
        pathIdx c = parentIndex (jobs m ! j) @ [k])"
proof -
  have c: "consistent m" by (rule consistent_run [OF consistent_newModel assms])
  then have wa: "wellAddressed m" by (simp add: consistent_def)
  have step: "wellAddressed m'" if "perform op m = Inr m'" for op m'
    using consistent_perform [OF c that] by (simp add: consistent_def)
  have node: "pathIdx n = idx \<and>
        (2 \<le> length idx \<longrightarrow>
           parent m idx = Inr (butlast idx) \<and>
           (\<exists>pn. nodeAt (folders m) (butlast idx) = Some pn \<and> last idx < length (subs pn) \<and>
              subs pn ! last idx = n \<and> pathIdx n = pathIdx pn @ [last idx]))"
    if mat: "materialized m idx" and n: "nodeAt (folders m) idx = Some n" for idx n
  proof -
    have own: "pathIdx x = q" if "materialized m q" "nodeAt (folders m) q = Some x" for q x
      using wellAddressed_nodeAt [OF wa that(2)] that
      by (auto simp: materialized_def)
    have "parent m idx = Inr (butlast idx) \<and>
           (\<exists>pn. nodeAt (folders m) (butlast idx) = Some pn \<and> last idx < length (subs pn) \<and>
              subs pn ! last idx = n \<and> pathIdx n = pathIdx pn @ [last idx])"
      if len: "2 \<le> length idx"
    proof -
      from nodeAt_butlast [OF n len] obtain pn where
        pn: "nodeAt (folders m) (butlast idx) = Some pn" "last idx < length (subs pn)"
          "subs pn ! last idx = n" by blast
      from own [OF materialized_parent [OF wa n len] pn(1)]
      have "pathIdx pn = butlast idx" .
      moreover from len have "idx \<noteq> []" by auto
      ultimately have "pathIdx n = pathIdx pn @ [last idx]"
        using own [OF mat n] by simp
      with pn parent_wellAddressed [OF wa n len] show ?thesis by blast
    qed
    with own [OF mat n] show ?thesis by blast
  qed
  have child: "pathIdx c = parentIndex (jobs m ! j) @ [k]"
    if "parentIndex (jobs m ! j) \<noteq> []"
      "jobFinished m j (DirectoryListingSubfolders l sizes) = Inr m'"
      "nodeAt (folders m') (parentIndex (jobs m ! j) @ [k]) = Some c" for j l sizes m' k c
  proof -
    from that(1) have len: "2 \<le> length (parentIndex (jobs m ! j) @ [k])"
      by (cases "parentIndex (jobs m ! j)") auto
    from that(2) have "perform (JobFinished j (DirectoryListingSubfolders l sizes)) m = Inr m'"
      by simp
    from wellAddressed_pathIdx [OF step [OF this] that(3) len] show ?thesis .
  qed
  from wa node step child show ?thesis by blast
qed

theorem address_invariant_witness:
  "run [FetchMore [0],
        JobFinished 0
          (DirectoryListingSubfolders [''/dav/'', ''/dav/photos/'', ''/dav/docs/''] noSizes)]
     (newModel [exFolder] False) = Inr exListed \<and>
   materialized exListed [0, 1] \<and>
   nodeAt (folders exListed) [0, 1] =
     Some (SubFolderInfo (Some 0) ''docs'' ''docs/'' [0, 1] [] 0 False False Checked) \<and>
   parent exListed [0, 1] = Inr [0]"
proof -
  have nm: "newModel [exFolder] False = exModel" by (simp add: newModel_def exModel_def)
  have j: "jobFinished exFetching 0
     (DirectoryListingSubfolders [''/dav/'', ''/dav/photos/'', ''/dav/docs/''] noSizes)
     = Inr exListed"
    by (simp add: jobFinished_def slotUpdateDirectories_def exFetching_def exFetched_def
          exListed_def exModel_def exFolder_def exRoot_def
          infoForIndex_def newSubFolderInfo_def noSizes_def sizeOf_def pathToRemove_def
          endsWith_def removeStr.simps splitSkipEmptyParts_def initialChecked_def
          SubFolderInfo0_def Let_def emit_def set_subs_def set_fetched_def set_fetching_def)
  have r: "run [FetchMore [0],
        JobFinished 0
          (DirectoryListingSubfolders [''/dav/'', ''/dav/photos/'', ''/dav/docs/''] noSizes)]
     (newModel [exFolder] False) = Inr exListed"
    by (simp add: nm ex_fetchMore j)
  have mat: "materialized exListed [0, 1]"
    by (simp add: materialized_def exListed_def exFetched_def exModel_def)
  have n: "nodeAt (folders exListed) [0, 1] =
     Some (SubFolderInfo (Some 0) ''docs'' ''docs/'' [0, 1] [] 0 False False Checked)"
    by (simp add: exListed_def exFetched_def exModel_def)
  from address_invariant [OF r] mat n
  have "parent exListed [0, 1] = Inr (butlast [0, 1])" by fastforce
  with r mat n show ?thesis by simp
qed

end
